theory Spec2Isabelle
  imports Main "HOL-Library.AList" "HOL-Library.Multiset" "HOL-Library.Word"
begin

section \<open>Storage values and errors (internal/storage)\<close>

text \<open>
  The sentinel errors of packages \<open>storage\<close> and \<open>raft\<close>, together with the two
  classes of failure that come from outside the repository: an operating-system IO
  failure and a JSON decoding failure.
\<close>

datatype error = ErrKeyNotFound | ErrKeyExpired | ErrNotLeader | ErrTimeout | ErrIO | ErrDecode

text \<open>
  \<open>type Value struct { Data []byte; Expiration int64 }\<close>. Time stamps are nanoseconds
  since the epoch; no arithmetic is done on them, only comparisons.
\<close>

record Value =
  Data :: "8 word list"
  Expiration :: int

text \<open>The expiry test that every access path repeats:
  \<open>val.Expiration > 0 && val.Expiration < time.Now().UnixNano()\<close>.\<close>

definition expired :: "Value \<Rightarrow> int \<Rightarrow> bool" where
  "expired val now \<longleftrightarrow> Expiration val > 0 \<and> Expiration val < now"

section \<open>The volatile backend: MemoryStorage\<close>

text \<open>
  The Go map \<open>data map[string]Value\<close> is an association list read through
  \<^const>\<open>map_of\<close>; assignment is \<^const>\<open>AList.update\<close>, the builtin \<open>delete\<close> is
  \<^const>\<open>AList.delete\<close>. The clock is an argument \<open>now\<close> of every operation that reads it:
  the value of \<open>time.Now().UnixNano()\<close> during the call. The locks are not modelled; the
  operations are taken one at a time.
\<close>

record MemoryStorage =
  data :: "(string \<times> Value) list"

definition NewMemoryStorage :: MemoryStorage where
  "NewMemoryStorage = \<lparr>data = []\<rparr>"

definition MemoryStorage_Set :: "MemoryStorage \<Rightarrow> string \<Rightarrow> Value \<Rightarrow> error option \<times> MemoryStorage" where
  "MemoryStorage_Set m key val = (None, m\<lparr>data := AList.update key val (data m)\<rparr>)"

definition MemoryStorage_Delete :: "MemoryStorage \<Rightarrow> string \<Rightarrow> error option \<times> MemoryStorage" where
  "MemoryStorage_Delete m key = (None, m\<lparr>data := AList.delete key (data m)\<rparr>)"

definition MemoryStorage_Get :: "MemoryStorage \<Rightarrow> string \<Rightarrow> int \<Rightarrow> (error + Value) \<times> MemoryStorage" where
  "MemoryStorage_Get m key now =
     (case map_of (data m) key of
        None \<Rightarrow> (Inl ErrKeyNotFound, m)
      | Some val \<Rightarrow>
          if expired val now then (Inl ErrKeyExpired, snd (MemoryStorage_Delete m key))
          else (Inr val, m))"

definition MemoryStorage_Has :: "MemoryStorage \<Rightarrow> string \<Rightarrow> int \<Rightarrow> bool" where
  "MemoryStorage_Has m key now =
     (case map_of (data m) key of
        None \<Rightarrow> False
      | Some val \<Rightarrow> if expired val now then False else True)"

text \<open>
  \<open>Keys\<close> ranges over the map: every key once, with its current value. On a list
  without duplicate keys \<^const>\<open>AList.clearjunk\<close> is the identity.
\<close>

definition MemoryStorage_Keys :: "MemoryStorage \<Rightarrow> int \<Rightarrow> string list" where
  "MemoryStorage_Keys m now =
     map fst (filter (\<lambda>(k, v). \<not> expired v now) (AList.clearjunk (data m)))"

definition MemoryStorage_Clear :: "MemoryStorage \<Rightarrow> error option \<times> MemoryStorage" where
  "MemoryStorage_Clear m = (None, m\<lparr>data := []\<rparr>)"


section \<open>The durable backend: DiskStorage\<close>

text \<open>
  The directory \<open>dirPath\<close> is a table from file names to entries. An entry is a
  sub-directory (with a flag telling whether it has entries of its own) or a regular file.
  A file is described by what \<open>json.Unmarshal\<close> makes of its bytes: \<open>File (Some v)\<close>
  decodes to the value \<open>v\<close> (this is what \<open>json.Marshal v\<close> writes), \<open>File None\<close> does
  not decode. The names of the table are the names a listing of the directory returns.
\<close>

datatype fentry = Dir bool | File "Value option"

type_synonym directory = "(string \<times> fentry) list"

text \<open>
  The operating system is outside the repository. Its calls may fail for reasons the
  program does not control; \<open>io c\<close> tells whether the call \<open>c\<close> fails in this way during
  the operation at hand. \<open>NotExist\<close> is the error \<open>os.IsNotExist\<close> recognises.
  A call that fails leaves the directory as it was. Writing to the name of a
  sub-directory fails, reading it fails, and \<open>os.Remove\<close> removes it only when it is
  empty.
\<close>

datatype syscall = ReadDir | ReadFile string | WriteFile string | Remove_file string | Stat string

type_synonym faults = "syscall \<Rightarrow> bool"

datatype oserror = NotExist | Failed

definition os_ReadDir :: "faults \<Rightarrow> directory \<Rightarrow> oserror + (string \<times> fentry) list" where
  "os_ReadDir io fs = (if io ReadDir then Inl Failed else Inr (AList.clearjunk fs))"

definition os_ReadFile :: "faults \<Rightarrow> directory \<Rightarrow> string \<Rightarrow> oserror + Value option" where
  "os_ReadFile io fs name =
     (if io (ReadFile name) then Inl Failed
      else case map_of fs name of
             None \<Rightarrow> Inl NotExist
           | Some (Dir _) \<Rightarrow> Inl Failed
           | Some (File c) \<Rightarrow> Inr c)"

definition os_WriteFile :: "faults \<Rightarrow> directory \<Rightarrow> string \<Rightarrow> Value \<Rightarrow> oserror option \<times> directory" where
  "os_WriteFile io fs name val =
     (if io (WriteFile name) then (Some Failed, fs)
      else case map_of fs name of
             Some (Dir _) \<Rightarrow> (Some Failed, fs)
           | _ \<Rightarrow> (None, AList.update name (File (Some val)) fs))"

definition os_Remove :: "faults \<Rightarrow> directory \<Rightarrow> string \<Rightarrow> oserror option \<times> directory" where
  "os_Remove io fs name =
     (if io (Remove_file name) then (Some Failed, fs)
      else case map_of fs name of
             None \<Rightarrow> (Some NotExist, fs)
           | Some (Dir True) \<Rightarrow> (Some Failed, fs)
           | _ \<Rightarrow> (None, AList.delete name fs))"

definition os_Stat :: "faults \<Rightarrow> directory \<Rightarrow> string \<Rightarrow> bool" where
  "os_Stat io fs name \<longleftrightarrow> \<not> io (Stat name) \<and> map_of fs name \<noteq> None"

text \<open>
  The operations on a key call the operating system with the path
  \<open>filepath.Join(d.dirPath, key)\<close>. \<open>Join\<close> joins and cleans the path lexically: empty
  components and \<open>.\<close> are dropped, and \<open>..\<close> drops the component before it. Seen from
  the directory, the result is the directory itself, an entry of it, a path below an
  entry, or a path that leaves the directory (taken as outside, wherever it leads
  afterwards). A path with a zero byte is refused by every call.
\<close>

datatype place = Self | Entry string | Below string | Outside | Invalid

fun split_path :: "string \<Rightarrow> string list" where
  "split_path [] = [[]]"
| "split_path (c # cs) =
     (if c = CHR ''/'' then [] # split_path cs
      else case split_path cs of [] \<Rightarrow> [[c]] | x # xs \<Rightarrow> (c # x) # xs)"

fun walk :: "string list \<Rightarrow> string list \<Rightarrow> string list option" where
  "walk [] st = Some st"
| "walk (c # cs) st =
     (if c = [] \<or> c = ''.'' then walk cs st
      else if c = ''..'' then (case st of [] \<Rightarrow> None | _ # st' \<Rightarrow> walk cs st')
      else walk cs (c # st))"

definition Join :: "string \<Rightarrow> place" where
  "Join key =
     (if CHR 0x00 \<in> set key then Invalid
      else case walk (split_path key) [] of
             None \<Rightarrow> Outside
           | Some st \<Rightarrow> (case rev st of [] \<Rightarrow> Self | [n] \<Rightarrow> Entry n | n # _ \<Rightarrow> Below n))"

text \<open>A key is a plain file name when its path is the entry of that very name.\<close>

definition plain :: "string \<Rightarrow> bool" where
  "plain key \<longleftrightarrow> Join key = Entry key"

text \<open>
  The calls on the path of a key. On an entry they are the calls above. The directory
  itself cannot be read or written as a file, and \<open>os.Remove\<close> removes it when it is
  empty (after which the calls on it fail, which is among the failures \<open>io\<close> stands
  for). A path through a regular file fails, and a path through a name that is not in
  the directory does not exist. The table holds the entries of the directory only: of
  what lies below a sub-directory or outside the directory it keeps nothing, and there
  a read finds nothing and a write fails. Where the path is not an entry, \<open>io\<close> is
  asked about the key as it stands.
\<close>

definition ReadFile_at :: "faults \<Rightarrow> directory \<Rightarrow> string \<Rightarrow> oserror + Value option" where
  "ReadFile_at io fs key =
     (case Join key of
        Entry n \<Rightarrow> os_ReadFile io fs n
      | Below n \<Rightarrow>
          (if io (ReadFile key) then Inl Failed
           else case map_of fs n of Some (File _) \<Rightarrow> Inl Failed | _ \<Rightarrow> Inl NotExist)
      | Outside \<Rightarrow> (if io (ReadFile key) then Inl Failed else Inl NotExist)
      | Self \<Rightarrow> Inl Failed
      | Invalid \<Rightarrow> Inl Failed)"

definition WriteFile_at :: "faults \<Rightarrow> directory \<Rightarrow> string \<Rightarrow> Value \<Rightarrow> oserror option \<times> directory" where
  "WriteFile_at io fs key val =
     (case Join key of
        Entry n \<Rightarrow> os_WriteFile io fs n val
      | _ \<Rightarrow> (Some Failed, fs))"

definition Remove_at :: "faults \<Rightarrow> directory \<Rightarrow> string \<Rightarrow> oserror option \<times> directory" where
  "Remove_at io fs key =
     (case Join key of
        Entry n \<Rightarrow> os_Remove io fs n
      | Below n \<Rightarrow>
          (if io (Remove_file key) then (Some Failed, fs)
           else case map_of fs n of Some (File _) \<Rightarrow> (Some Failed, fs) | _ \<Rightarrow> (Some NotExist, fs))
      | Outside \<Rightarrow> (if io (Remove_file key) then (Some Failed, fs) else (Some NotExist, fs))
      | Self \<Rightarrow> (if io (Remove_file key) \<or> fs \<noteq> [] then (Some Failed, fs) else (None, fs))
      | Invalid \<Rightarrow> (Some Failed, fs))"

definition Stat_at :: "faults \<Rightarrow> directory \<Rightarrow> string \<Rightarrow> bool" where
  "Stat_at io fs key =
     (case Join key of
        Entry n \<Rightarrow> os_Stat io fs n
      | Self \<Rightarrow> \<not> io (Stat key)
      | _ \<Rightarrow> False)"

text \<open>\<open>type DiskStorage struct { dirPath string; memory *MemoryStorage; mutex sync.RWMutex }\<close>,
  with the contents of the directory in the place of its path.\<close>

record DiskStorage =
  memory :: MemoryStorage
  files :: directory

text \<open>The body of the loop of \<open>loadFromDisk\<close>, for one entry of the listing. The path
  \<open>filepath.Join(d.dirPath, file.Name())\<close> of a listed name is the entry of that name.\<close>

definition load_entry :: "faults \<Rightarrow> int \<Rightarrow> string \<times> fentry \<Rightarrow> DiskStorage \<Rightarrow> DiskStorage" where
  "load_entry io now entry d =
     (case snd entry of
        Dir _ \<Rightarrow> d
      | File _ \<Rightarrow>
          (case os_ReadFile io (files d) (fst entry) of
             Inl _ \<Rightarrow> d
           | Inr None \<Rightarrow> d
           | Inr (Some val) \<Rightarrow>
               if expired val now
               then d\<lparr>files := snd (os_Remove io (files d) (fst entry))\<rparr>
               else d\<lparr>memory := snd (MemoryStorage_Set (memory d) (fst entry) val)\<rparr>))"

definition loadFromDisk :: "DiskStorage \<Rightarrow> faults \<Rightarrow> int \<Rightarrow> error option \<times> DiskStorage" where
  "loadFromDisk d io now =
     (case os_ReadDir io (files d) of
        Inl _ \<Rightarrow> (Some ErrIO, d)
      | Inr entries \<Rightarrow> (None, fold (load_entry io now) entries d))"

definition NewDiskStorage :: "directory \<Rightarrow> faults \<Rightarrow> int \<Rightarrow> error + DiskStorage" where
  "NewDiskStorage fs io now =
     (case loadFromDisk \<lparr>memory = NewMemoryStorage, files = fs\<rparr> io now of
        (Some e, _) \<Rightarrow> Inl e
      | (None, ds) \<Rightarrow> Inr ds)"

definition DiskStorage_Delete :: "DiskStorage \<Rightarrow> string \<Rightarrow> faults \<Rightarrow> error option \<times> DiskStorage" where
  "DiskStorage_Delete d key io =
     (let m = snd (MemoryStorage_Delete (memory d) key);
          (err, fs) = Remove_at io (files d) key
      in (if err \<noteq> None \<and> err \<noteq> Some NotExist then Some ErrIO else None,
          \<lparr>memory = m, files = fs\<rparr>))"

definition DiskStorage_Get :: "DiskStorage \<Rightarrow> string \<Rightarrow> faults \<Rightarrow> int \<Rightarrow> (error + Value) \<times> DiskStorage" where
  "DiskStorage_Get d key io now =
     (case MemoryStorage_Get (memory d) key now of
        (Inr val, m) \<Rightarrow> (Inr val, d\<lparr>memory := m\<rparr>)
      | (Inl _, m) \<Rightarrow>
          (let d1 = d\<lparr>memory := m\<rparr>
           in case ReadFile_at io (files d1) key of
                Inl NotExist \<Rightarrow> (Inl ErrKeyNotFound, d1)
              | Inl Failed \<Rightarrow> (Inl ErrIO, d1)
              | Inr None \<Rightarrow> (Inl ErrDecode, d1)
              | Inr (Some val) \<Rightarrow>
                  if expired val now
                  then (Inl ErrKeyExpired, snd (DiskStorage_Delete d1 key io))
                  else (Inr val, d1\<lparr>memory := snd (MemoryStorage_Set (memory d1) key val)\<rparr>)))"

definition DiskStorage_Set :: "DiskStorage \<Rightarrow> string \<Rightarrow> Value \<Rightarrow> faults \<Rightarrow> error option \<times> DiskStorage" where
  "DiskStorage_Set d key val io =
     (case MemoryStorage_Set (memory d) key val of
        (Some e, m) \<Rightarrow> (Some e, d\<lparr>memory := m\<rparr>)
      | (None, m) \<Rightarrow>
          (let (err, fs) = WriteFile_at io (files d) key val
           in (if err \<noteq> None then Some ErrIO else None, \<lparr>memory = m, files = fs\<rparr>)))"

definition DiskStorage_Has :: "DiskStorage \<Rightarrow> string \<Rightarrow> faults \<Rightarrow> int \<Rightarrow> bool \<times> DiskStorage" where
  "DiskStorage_Has d key io now =
     (if MemoryStorage_Has (memory d) key now then (True, d)
      else if \<not> Stat_at io (files d) key then (False, d)
      else case ReadFile_at io (files d) key of
             Inl _ \<Rightarrow> (False, d)
           | Inr None \<Rightarrow> (False, d)
           | Inr (Some val) \<Rightarrow>
               if expired val now then (False, snd (DiskStorage_Delete d key io))
               else (True, d\<lparr>memory := snd (MemoryStorage_Set (memory d) key val)\<rparr>))"

definition DiskStorage_Keys :: "DiskStorage \<Rightarrow> faults \<Rightarrow> int \<Rightarrow> string list \<times> DiskStorage" where
  "DiskStorage_Keys d io now =
     (case loadFromDisk d io now of
        (Some _, d') \<Rightarrow> (MemoryStorage_Keys (memory d') now, d')
      | (None, d') \<Rightarrow> (MemoryStorage_Keys (memory d') now, d'))"

text \<open>The loop of \<open>Clear\<close> over the listing: it stops at the first removal that fails.\<close>

fun remove_files :: "faults \<Rightarrow> (string \<times> fentry) list \<Rightarrow> directory \<Rightarrow> error option \<times> directory" where
  "remove_files io [] fs = (None, fs)"
| "remove_files io ((name, Dir b) # es) fs = remove_files io es fs"
| "remove_files io ((name, File c) # es) fs =
     (case os_Remove io fs name of
        (Some _, fs') \<Rightarrow> (Some ErrIO, fs')
      | (None, fs') \<Rightarrow> remove_files io es fs')"

definition DiskStorage_Clear :: "DiskStorage \<Rightarrow> faults \<Rightarrow> error option \<times> DiskStorage" where
  "DiskStorage_Clear d io =
     (let m = snd (MemoryStorage_Clear (memory d))
      in case os_ReadDir io (files d) of
           Inl _ \<Rightarrow> (Some ErrIO, \<lparr>memory = m, files = files d\<rparr>)
         | Inr entries \<Rightarrow>
             (let (err, fs) = remove_files io entries (files d)
              in (err, \<lparr>memory = m, files = fs\<rparr>)))"

section \<open>The Storage interface\<close>

text \<open>The interface \<open>storage.Storage\<close> with its two implementations.\<close>

datatype storage = Volatile MemoryStorage | Durable DiskStorage

fun Storage_Get :: "storage \<Rightarrow> string \<Rightarrow> faults \<Rightarrow> int \<Rightarrow> (error + Value) \<times> storage" where
  "Storage_Get (Volatile m) key io now = map_prod id Volatile (MemoryStorage_Get m key now)"
| "Storage_Get (Durable d) key io now = map_prod id Durable (DiskStorage_Get d key io now)"

fun Storage_Set :: "storage \<Rightarrow> string \<Rightarrow> Value \<Rightarrow> faults \<Rightarrow> error option \<times> storage" where
  "Storage_Set (Volatile m) key val io = map_prod id Volatile (MemoryStorage_Set m key val)"
| "Storage_Set (Durable d) key val io = map_prod id Durable (DiskStorage_Set d key val io)"

fun Storage_Delete :: "storage \<Rightarrow> string \<Rightarrow> faults \<Rightarrow> error option \<times> storage" where
  "Storage_Delete (Volatile m) key io = map_prod id Volatile (MemoryStorage_Delete m key)"
| "Storage_Delete (Durable d) key io = map_prod id Durable (DiskStorage_Delete d key io)"

fun Storage_Has :: "storage \<Rightarrow> string \<Rightarrow> faults \<Rightarrow> int \<Rightarrow> bool \<times> storage" where
  "Storage_Has (Volatile m) key io now = (MemoryStorage_Has m key now, Volatile m)"
| "Storage_Has (Durable d) key io now = map_prod id Durable (DiskStorage_Has d key io now)"

fun Storage_Keys :: "storage \<Rightarrow> faults \<Rightarrow> int \<Rightarrow> string list \<times> storage" where
  "Storage_Keys (Volatile m) io now = (MemoryStorage_Keys m now, Volatile m)"
| "Storage_Keys (Durable d) io now = map_prod id Durable (DiskStorage_Keys d io now)"

fun Storage_Clear :: "storage \<Rightarrow> faults \<Rightarrow> error option \<times> storage" where
  "Storage_Clear (Volatile m) io = map_prod id Volatile (MemoryStorage_Clear m)"
| "Storage_Clear (Durable d) io = map_prod id Durable (DiskStorage_Clear d io)"

text \<open>An environment in which no call of the operating system fails.\<close>

definition healthy :: faults where
  "healthy = (\<lambda>c. False)"

subsection \<open>Notions for the statements about the durable backend\<close>

text \<open>
  What a reload of the directory does with one name: \<open>loaded\<close> is the value it puts in the
  cache (a readable file with an unexpired value), \<open>removed\<close> tells whether it deletes
  the file (a readable file with an expired value whose removal does not fail).
\<close>

definition loaded :: "faults \<Rightarrow> int \<Rightarrow> directory \<Rightarrow> string \<Rightarrow> Value option" where
  "loaded io now fs k =
     (case map_of fs k of
        Some (File (Some v)) \<Rightarrow> if \<not> io (ReadFile k) \<and> \<not> expired v now then Some v else None
      | _ \<Rightarrow> None)"

definition removed :: "faults \<Rightarrow> int \<Rightarrow> directory \<Rightarrow> string \<Rightarrow> bool" where
  "removed io now fs k =
     (case map_of fs k of
        Some (File (Some v)) \<Rightarrow> \<not> io (ReadFile k) \<and> expired v now \<and> \<not> io (Remove_file k)
      | _ \<Rightarrow> False)"

section \<open>The replicated state machine (internal/raft/fsm.go)\<close>

text \<open>
  \<open>type Command struct { Op string; Key string; Value storage.Value }\<close>; the field
  \<open>Value\<close> is \<open>Val\<close> here, beside the type of that name. The bytes of a log entry are
  described by what \<open>json.Unmarshal\<close> makes of them: \<open>Encoded cmd\<close> is what
  \<open>json.Marshal(cmd)\<close> yields, \<open>Malformed\<close> does not decode.
\<close>

record Command =
  Op :: string
  Key :: string
  Val :: Value

datatype log_data = Malformed | Encoded Command

text \<open>
  The \<open>FSM\<close> struct holds the store and a logger; the operations are given on the store.
  Logging is not modelled. In the default branch of \<open>Apply\<close> the second
  \<open>json.Unmarshal\<close> succeeds as the first one did, and the result is \<open>nil\<close>.
\<close>

definition FSM_Apply :: "storage \<Rightarrow> log_data \<Rightarrow> faults \<Rightarrow> error option \<times> storage" where
  "FSM_Apply st log io =
     (case log of
        Malformed \<Rightarrow> (Some ErrDecode, st)
      | Encoded cmd \<Rightarrow>
          if Op cmd = ''set'' then Storage_Set st (Key cmd) (Val cmd) io
          else if Op cmd = ''delete'' then Storage_Delete st (Key cmd) io
          else if Op cmd = ''deleteAll'' then Storage_Clear st io
          else (None, st))"

text \<open>The consensus engine applies the committed entries in log order.\<close>

fun Apply_all :: "storage \<Rightarrow> log_data list \<Rightarrow> faults \<Rightarrow> storage" where
  "Apply_all st [] io = st"
| "Apply_all st (log # logs) io = Apply_all (snd (FSM_Apply st log io)) logs io"

text \<open>
  \<open>Snapshot\<close>: the keys, then one \<open>Get\<close> per key; a key whose \<open>Get\<close> fails is left out.
  The snapshot is the map \<open>data\<close>, here an association list. One value \<open>now\<close> of the
  clock serves all the storage calls of one \<open>Snapshot\<close>.
\<close>

definition snapshot_key :: "faults \<Rightarrow> int \<Rightarrow> string \<Rightarrow> (string \<times> Value) list \<times> storage \<Rightarrow> (string \<times> Value) list \<times> storage" where
  "snapshot_key io now key acc =
     (case Storage_Get (snd acc) key io now of
        (Inr val, st) \<Rightarrow> (AList.update key val (fst acc), st)
      | (Inl _, st) \<Rightarrow> (fst acc, st))"

definition FSM_Snapshot :: "storage \<Rightarrow> faults \<Rightarrow> int \<Rightarrow> (string \<times> Value) list \<times> storage" where
  "FSM_Snapshot st io now =
     (let (ks, st1) = Storage_Keys st io now
      in fold (snapshot_key io now) ks ([], st1))"

text \<open>
  \<open>Restore\<close>: the reader \<open>rc\<close> is described by what the JSON decoder makes of it,
  \<open>None\<close> when decoding fails. Errors of the single \<open>Set\<close> calls are logged and ignored.
\<close>

definition restore_key :: "faults \<Rightarrow> string \<times> Value \<Rightarrow> storage \<Rightarrow> storage" where
  "restore_key io kv st = snd (Storage_Set st (fst kv) (snd kv) io)"

definition FSM_Restore :: "storage \<Rightarrow> (string \<times> Value) list option \<Rightarrow> faults \<Rightarrow> error option \<times> storage" where
  "FSM_Restore st rc io =
     (case Storage_Clear st io of
        (Some e, st1) \<Rightarrow> (Some e, st1)
      | (None, st1) \<Rightarrow>
          (case rc of
             None \<Rightarrow> (Some ErrDecode, st1)
           | Some snapshot \<Rightarrow> (None, fold (restore_key io) (AList.clearjunk snapshot) st1)))"

subsection \<open>Notions for the statements about the state machine\<close>

text \<open>
  The key/value map a storage engine stands for: the map of the volatile backend, and
  on the durable backend the values of the files of the directory.
\<close>

definition persisted :: "directory \<Rightarrow> string \<rightharpoonup> Value" where
  "persisted fs k = (case map_of fs k of Some (File (Some v)) \<Rightarrow> Some v | _ \<Rightarrow> None)"

fun view :: "storage \<Rightarrow> string \<rightharpoonup> Value" where
  "view (Volatile m) = map_of (data m)"
| "view (Durable d) = persisted (files d)"

text \<open>
  A durable store is coherent at a time when its directory holds nothing but files that
  decode to a value, under plain file names (the names a listing can return), and every
  entry of its cache either is the value of the file of its key or has expired and has
  no file (the state \<open>Keys\<close> leaves behind when it removes the file of an expired
  entry).
\<close>

definition coherent :: "DiskStorage \<Rightarrow> int \<Rightarrow> bool" where
  "coherent d now \<longleftrightarrow>
     list_all (\<lambda>(k, e). plain k \<and> (case e of File (Some v) \<Rightarrow> True | _ \<Rightarrow> False))
       (AList.clearjunk (files d))
   \<and> list_all (\<lambda>(k, v). map_of (files d) k = Some (File (Some v))
                        \<or> (map_of (files d) k = None \<and> expired v now))
       (AList.clearjunk (data (memory d)))"

fun ok :: "storage \<Rightarrow> int \<Rightarrow> bool" where
  "ok (Volatile m) now = True"
| "ok (Durable d) now = coherent d now"

text \<open>Cache and directory agree, key by key and under plain file names: the state
  every successful mutation of a plain key leaves.\<close>

definition synced :: "DiskStorage \<Rightarrow> bool" where
  "synced d \<longleftrightarrow>
     (\<forall>k. map_of (files d) k = map_option (\<lambda>v. File (Some v)) (map_of (data (memory d)) k))
   \<and> (\<forall>k v. map_of (data (memory d)) k = Some v \<longrightarrow> plain k)"

fun in_sync :: "storage \<Rightarrow> bool" where
  "in_sync (Volatile m) = True"
| "in_sync (Durable d) = synced d"

text \<open>A storage engine as its constructor returns it: \<open>NewMemoryStorage()\<close>, or
  \<open>NewDiskStorage\<close> on an empty directory.\<close>

fun is_new :: "storage \<Rightarrow> bool" where
  "is_new (Volatile m) = (data m = [])"
| "is_new (Durable d) = (data (memory d) = [] \<and> files d = [])"

text \<open>
  The keys a backend keeps apart: the volatile backend every string, the durable backend
  the plain file names, each of which has a file of its own. A log entry fits a backend
  when the key of its \<open>set\<close> or \<open>delete\<close> command does.
\<close>

fun fits :: "storage \<Rightarrow> string \<Rightarrow> bool" where
  "fits (Volatile m) k = True"
| "fits (Durable d) k = plain k"

definition log_fits :: "storage \<Rightarrow> log_data \<Rightarrow> bool" where
  "log_fits st log =
     (case log of
        Malformed \<Rightarrow> True
      | Encoded cmd \<Rightarrow>
          if Op cmd = ''set'' \<or> Op cmd = ''delete'' then fits st (Key cmd) else True)"

text \<open>The effect of a log entry on a key/value map.\<close>

definition apply_map :: "log_data \<Rightarrow> (string \<rightharpoonup> Value) \<Rightarrow> (string \<rightharpoonup> Value)" where
  "apply_map log c =
     (case log of
        Malformed \<Rightarrow> c
      | Encoded cmd \<Rightarrow>
          if Op cmd = ''set'' then c(Key cmd \<mapsto> Val cmd)
          else if Op cmd = ''delete'' then c(Key cmd := None)
          else if Op cmd = ''deleteAll'' then Map.empty
          else c)"

text \<open>What an observer reads from a key/value map at a time.\<close>

definition read_map :: "(string \<rightharpoonup> Value) \<Rightarrow> string \<Rightarrow> int \<Rightarrow> error + Value" where
  "read_map c k t =
     (case c k of
        None \<Rightarrow> Inl ErrKeyNotFound
      | Some v \<Rightarrow> if expired v t then Inl ErrKeyExpired else Inr v)"

definition live_keys :: "(string \<rightharpoonup> Value) \<Rightarrow> int \<Rightarrow> string set" where
  "live_keys c t = {k. \<exists>v. c k = Some v \<and> \<not> expired v t}"

text \<open>The scenario of the snapshot round trip: \<open>Snapshot\<close>, then \<open>Clear\<close> on the storage
  engine, then \<open>Restore\<close> from the snapshot taken.\<close>

definition snapshot_clear_restore :: "storage \<Rightarrow> faults \<Rightarrow> int \<Rightarrow> error option \<times> storage" where
  "snapshot_clear_restore st io now =
     (let (snapshot, st1) = FSM_Snapshot st io now;
          (e, st2) = Storage_Clear st1 io
      in FSM_Restore st2 (Some snapshot) io)"

section \<open>The consensus node (internal/raft/node.go)\<close>

text \<open>
  The consensus engine is the library \<open>hashicorp/raft\<close>. Of its state the node reads the
  role, \<open>n.raft.State()\<close>; its \<open>Apply\<close>, which replicates an entry and hands it to the
  state machine once committed, is a parameter \<open>raftApply\<close> of the operations that call it.
\<close>

datatype RaftState = Follower | Candidate | Leader | Shutdown

record Node =
  ID :: string
  state :: RaftState
  store :: storage

definition Node_Set ::
  "(log_data \<Rightarrow> Node \<Rightarrow> error option \<times> Node) \<Rightarrow> Node \<Rightarrow> string \<Rightarrow> Value \<Rightarrow> error option \<times> Node" where
  "Node_Set raftApply n key val =
     (if state n \<noteq> Leader then (Some ErrNotLeader, n)
      else raftApply (Encoded \<lparr>Op = ''set'', Key = key, Val = val\<rparr>) n)"

definition Node_Delete ::
  "(log_data \<Rightarrow> Node \<Rightarrow> error option \<times> Node) \<Rightarrow> Node \<Rightarrow> string \<Rightarrow> error option \<times> Node" where
  "Node_Delete raftApply n key =
     (if state n \<noteq> Leader then (Some ErrNotLeader, n)
      else raftApply (Encoded \<lparr>Op = ''delete'', Key = key, Val = \<lparr>Data = [], Expiration = 0\<rparr>\<rparr>) n)"

definition Node_Get :: "Node \<Rightarrow> string \<Rightarrow> faults \<Rightarrow> int \<Rightarrow> (error + Value) \<times> Node" where
  "Node_Get n key io now =
     (let (r, st) = Storage_Get (store n) key io now in (r, n\<lparr>store := st\<rparr>))"

text \<open>
  A consensus engine of a cluster of one node, for illustration: a leader's entry is
  committed at once and applied to the state machine of the node.
\<close>

definition single_node_apply :: "faults \<Rightarrow> log_data \<Rightarrow> Node \<Rightarrow> error option \<times> Node" where
  "single_node_apply io log n =
     (let (r, st) = FSM_Apply (store n) log io in (r, n\<lparr>store := st\<rparr>))"
section \<open>The consistent hash ring (pkg/consistenthash)\<close>

text \<open>
  \<open>type Map struct { hash Hash; replicas int; keys []int; hashMap map[int]string }\<close>.
  A \<open>Hash\<close> maps bytes to \<open>uint32\<close>; \<open>int(...)\<close> of it is its unsigned value
  (\<open>int\<close> has 64 bits). \<open>New\<close> takes the hash function; where the source is given \<open>nil\<close>
  it takes \<open>crc32.ChecksumIEEE\<close>, which is then the argument here.
\<close>

record Map =
  hash :: "string \<Rightarrow> 32 word"
  replicas :: int
  keys :: "int list"
  hashMap :: "int \<rightharpoonup> string"

definition New :: "int \<Rightarrow> (string \<Rightarrow> 32 word) \<Rightarrow> Map" where
  "New n fn = \<lparr>hash = fn, replicas = n, keys = [], hashMap = Map.empty\<rparr>"

text \<open>\<open>strconv.Itoa\<close> on the non-negative loop counter.\<close>

fun Itoa :: "nat \<Rightarrow> string" where
  "Itoa n = (if n < 10 then [char_of (48 + n)] else Itoa (n div 10) @ [char_of (48 + n mod 10)])"

declare Itoa.simps [simp del]

definition vhash :: "Map \<Rightarrow> nat \<Rightarrow> string \<Rightarrow> int" where
  "vhash m i key = uint (hash m (Itoa i @ key))"

definition Add_replica :: "string \<Rightarrow> nat \<Rightarrow> Map \<Rightarrow> Map" where
  "Add_replica key i m =
     (let h = vhash m i key
      in m\<lparr>keys := keys m @ [h], hashMap := (hashMap m)(h \<mapsto> key)\<rparr>)"

definition Add_key :: "string \<Rightarrow> Map \<Rightarrow> Map" where
  "Add_key key m = fold (Add_replica key) [0..<nat (replicas m)] m"

definition Add :: "Map \<Rightarrow> string list \<Rightarrow> Map" where
  "Add m ks = (let m' = fold Add_key ks m in m'\<lparr>keys := sort (keys m')\<rparr>)"

text \<open>\<open>sort.Search(n, f)\<close>: the binary search of the standard library,
  \<open>i, j := 0, n; for i < j { h := (i+j)/2; if !f(h) { i = h+1 } else { j = h } }; return i\<close>.\<close>

function Search_loop :: "(nat \<Rightarrow> bool) \<Rightarrow> nat \<Rightarrow> nat \<Rightarrow> nat" where
  "Search_loop f i j =
     (if i < j then
        (let h = (i + j) div 2
         in if \<not> f h then Search_loop f (h + 1) j else Search_loop f i h)
      else i)"
  by pat_completeness auto
termination
  by (relation "measure (\<lambda>(f, i, j). j - i)") auto

declare Search_loop.simps [simp del]

definition Search :: "nat \<Rightarrow> (nat \<Rightarrow> bool) \<Rightarrow> nat" where
  "Search n f = Search_loop f 0 n"

text \<open>
  \<open>Get\<close> in two steps: \<open>locate\<close> is the index it computes (search, then wrap), and
  the lookup \<open>m.hashMap[m.keys[idx]]\<close> yields the zero value \<open>""\<close> for a missing entry.
\<close>

definition locate :: "Map \<Rightarrow> string \<Rightarrow> nat" where
  "locate m key =
     (let h = uint (hash m key);
          idx = Search (length (keys m)) (\<lambda>i. keys m ! i \<ge> h)
      in if idx = length (keys m) then 0 else idx)"

definition Get :: "Map \<Rightarrow> string \<Rightarrow> string" where
  "Get m key =
     (if length (keys m) = 0 then ''''
      else case hashMap m (keys m ! locate m key) of None \<Rightarrow> '''' | Some node \<Rightarrow> node)"

text \<open>The inner loop of \<open>Remove\<close>: the first index holding the hash, if any.\<close>

fun index_of :: "int list \<Rightarrow> int \<Rightarrow> nat option" where
  "index_of [] h = None"
| "index_of (k # ks) h = (if k = h then Some 0 else map_option Suc (index_of ks h))"

definition Remove_replica :: "string \<Rightarrow> nat \<Rightarrow> Map \<Rightarrow> Map" where
  "Remove_replica key i m =
     (let h = vhash m i key
      in case index_of (keys m) h of
           None \<Rightarrow> m
         | Some idx \<Rightarrow>
             m\<lparr>keys := take idx (keys m) @ drop (idx + 1) (keys m),
               hashMap := (hashMap m)(h := None)\<rparr>)"

definition Remove :: "Map \<Rightarrow> string \<Rightarrow> Map" where
  "Remove m key = fold (Remove_replica key) [0..<nat (replicas m)] m"

text \<open>
  The hash of the repository's ring test: \<open>i, _ := strconv.Atoi(string(key)); return uint32(i)\<close>.
  \<open>Atoi\<close> accepts an optional sign and decimal digits, yields 0 on a syntax error
  and the nearest 64-bit bound on overflow; \<open>uint32\<close> keeps the low 32 bits.
\<close>

fun digits_val :: "string \<Rightarrow> nat \<Rightarrow> nat option" where
  "digits_val [] acc = Some acc"
| "digits_val (c # cs) acc =
     (if 48 \<le> (of_char c :: nat) \<and> (of_char c :: nat) \<le> 57
      then digits_val cs (acc * 10 + (of_char c - 48))
      else None)"

definition Atoi :: "string \<Rightarrow> int" where
  "Atoi s =
     (let (neg, ds) =
            (case s of
               [] \<Rightarrow> (False, [])
             | c # cs \<Rightarrow>
                 if c = CHR ''-'' then (True, cs)
                 else if c = CHR ''+'' then (False, cs)
                 else (False, s))
      in if ds = [] then 0
         else case digits_val ds 0 of
                None \<Rightarrow> 0
              | Some n \<Rightarrow>
                  if neg then max (- 9223372036854775808) (- int n)
                  else min 9223372036854775807 (int n))"

definition test_hash :: "string \<Rightarrow> 32 word" where
  "test_hash key = word_of_int (Atoi key)"

text \<open>The ring of the repository's test: three replicas, the parse-as-integer hash,
  and \<open>hash.Add("6", "4", "2")\<close>.\<close>

definition test_ring :: Map where
  "test_ring = Add (New 3 test_hash) [''6'', ''4'', ''2'']"

subsection \<open>Histories of the ring, and the notions the ring claims speak of\<close>

datatype ring_op = OpAdd "string list" | OpRemove string

fun apply_op :: "Map \<Rightarrow> ring_op \<Rightarrow> Map" where
  "apply_op m (OpAdd ks) = Add m ks"
| "apply_op m (OpRemove k) = Remove m k"

fun run :: "Map \<Rightarrow> ring_op list \<Rightarrow> Map" where
  "run m [] = m"
| "run m (x # xs) = run (apply_op m x) xs"

text \<open>A node is on the ring when some position of \<open>keys\<close> is mapped to it.\<close>

definition on_ring :: "Map \<Rightarrow> string \<Rightarrow> bool" where
  "on_ring m node \<longleftrightarrow> (\<exists>p \<in> set (keys m). hashMap m p = Some node)"

text \<open>The positions \<open>Add\<close> and \<open>Remove\<close> compute for a node: one per replica index.\<close>

definition positions :: "Map \<Rightarrow> string \<Rightarrow> int list" where
  "positions m node = map (\<lambda>i. vhash m i node) [0..<nat (replicas m)]"

text \<open>
  A history is free of collisions when after each of its steps no position occurs twice
  in \<open>keys\<close>, and it names no node by the empty string (the value \<open>Get\<close> returns for
  "no node").
\<close>

fun named :: "ring_op \<Rightarrow> bool" where
  "named (OpAdd ks) = ('''' \<notin> set ks)"
| "named (OpRemove k) = True"

fun collision_free :: "Map \<Rightarrow> ring_op list \<Rightarrow> bool" where
  "collision_free m [] = True"
| "collision_free m (x # xs) =
     (named x \<and> distinct (keys (apply_op m x)) \<and> collision_free (apply_op m x) xs)"

text \<open>
  The position the specification describes for a hash value: the smallest ring position
  greater than or equal to it, and the first position when there is none.
\<close>

definition spec_position :: "int list \<Rightarrow> int \<Rightarrow> int" where
  "spec_position ks h =
     (if \<exists>p \<in> set ks. h \<le> p then Min {p \<in> set ks. h \<le> p} else ks ! 0)"

text \<open>Every position of the ring has an owner with a non-empty name.\<close>

definition owned :: "Map \<Rightarrow> bool" where
  "owned m \<longleftrightarrow> (\<forall>p \<in> set (keys m). \<exists>n. hashMap m p = Some n \<and> n \<noteq> '''')"


section \<open>Properties of the storage backends\<close>

subsection \<open>MemoryStorage\<close>

lemma Memory_Keys_set:
  "set (MemoryStorage_Keys m now) = {k. \<exists>v. map_of (data m) k = Some v \<and> \<not> expired v now}"
proof -
  let ?al = "AList.clearjunk (data m)"
  have d: "distinct (map fst ?al)" by simp
  have "set (MemoryStorage_Keys m now) = {k. \<exists>v. (k, v) \<in> set ?al \<and> \<not> expired v now}"
    by (force simp: MemoryStorage_Keys_def)
  also have "\<dots> = {k. \<exists>v. map_of ?al k = Some v \<and> \<not> expired v now}"
    using d by simp
  finally show ?thesis by (simp add: map_of_clearjunk)
qed

lemma Memory_Keys_distinct: "distinct (MemoryStorage_Keys m now)"
  by (simp add: MemoryStorage_Keys_def distinct_map_filter)

lemma Memory_Get_result:
  "fst (MemoryStorage_Get m k now) =
     (case map_of (data m) k of
        None \<Rightarrow> Inl ErrKeyNotFound
      | Some v \<Rightarrow> if expired v now then Inl ErrKeyExpired else Inr v)"
  by (simp add: MemoryStorage_Get_def split: option.splits)

lemma Memory_Get_state:
  "map_of (data (snd (MemoryStorage_Get m k now))) =
     (case map_of (data m) k of
        None \<Rightarrow> map_of (data m)
      | Some v \<Rightarrow> if expired v now then (map_of (data m))(k := None) else map_of (data m))"
  by (simp add: MemoryStorage_Get_def MemoryStorage_Delete_def delete_conv' split: option.splits)

lemma Memory_Has_iff:
  "MemoryStorage_Has m k now \<longleftrightarrow> (\<exists>v. map_of (data m) k = Some v \<and> \<not> expired v now)"
  by (simp add: MemoryStorage_Has_def split: option.splits)

lemma expired_mono: "expired v t \<Longrightarrow> t \<le> t' \<Longrightarrow> expired v t'"
  by (simp add: expired_def)

subsection \<open>Paths\<close>

lemma split_path_plain: "CHR ''/'' \<notin> set k \<Longrightarrow> split_path k = [k]"
  by (induction k) auto

lemma split_path_component:
  "c \<in> set (split_path k) \<Longrightarrow> CHR ''/'' \<notin> set c \<and> set c \<subseteq> set k"
proof (induction k arbitrary: c)
  case Nil
  then show ?case by simp
next
  case (Cons a k)
  show ?case
  proof (cases "a = CHR ''/''")
    case True
    with Cons show ?thesis by auto
  next
    case False
    show ?thesis
    proof (cases "split_path k")
      case Nil
      with False Cons.prems show ?thesis by simp
    next
      case (Cons x xs)
      with False Cons.prems have "c = a # x \<or> c \<in> set xs" by simp
      then show ?thesis
      proof
        assume "c = a # x"
        with False Cons.IH [of x] Cons show ?thesis by auto
      next
        assume "c \<in> set xs"
        with Cons.IH [of c] Cons show ?thesis by auto
      qed
    qed
  qed
qed

lemma walk_components:
  "walk cs st = Some r \<Longrightarrow>
     set r \<subseteq> {c \<in> set cs. c \<noteq> [] \<and> c \<noteq> ''.'' \<and> c \<noteq> ''..''} \<union> set st"
proof (induction cs st rule: walk.induct)
  case (1 st)
  then show ?case by simp
next
  case (2 c cs st)
  show ?case
  proof (cases "c = [] \<or> c = ''.''")
    case True
    with 2 show ?thesis by auto
  next
    case False
    show ?thesis
    proof (cases "c = ''..''")
      case True
      with False 2 show ?thesis by (cases st) auto
    next
      case nd: False
      with False 2 show ?thesis by auto
    qed
  qed
qed

text \<open>The plain file names: not empty, not \<open>.\<close> or \<open>..\<close>, without \<open>/\<close> and zero byte.\<close>

lemma plain_iff:
  "plain k \<longleftrightarrow> k \<noteq> [] \<and> k \<noteq> ''.'' \<and> k \<noteq> ''..'' \<and> CHR ''/'' \<notin> set k \<and> CHR 0x00 \<notin> set k"
proof
  assume p: "plain k"
  then have z: "CHR 0x00 \<notin> set k" by (auto simp: plain_def Join_def split: if_splits)
  from p z obtain st where w: "walk (split_path k) [] = Some st" and r: "rev st = [k]"
    by (auto simp: plain_def Join_def split: option.splits list.splits)
  from r have "k \<in> set st" by (metis list.set_intros(1) set_rev)
  with walk_components [OF w]
  have "k \<in> set (split_path k)" "k \<noteq> []" "k \<noteq> ''.''" "k \<noteq> ''..''" by auto
  with split_path_component [of k k] z
  show "k \<noteq> [] \<and> k \<noteq> ''.'' \<and> k \<noteq> ''..'' \<and> CHR ''/'' \<notin> set k \<and> CHR 0x00 \<notin> set k" by simp
next
  assume "k \<noteq> [] \<and> k \<noteq> ''.'' \<and> k \<noteq> ''..'' \<and> CHR ''/'' \<notin> set k \<and> CHR 0x00 \<notin> set k"
  then show "plain k" by (simp add: plain_def Join_def split_path_plain)
qed

text \<open>Every path that is an entry of the directory names it by a plain file name.\<close>

lemma Join_Entry_plain:
  assumes "Join k = Entry n"
  shows "plain n"
proof -
  from assms have z: "CHR 0x00 \<notin> set k" by (auto simp: Join_def split: if_splits)
  from assms z obtain st where w: "walk (split_path k) [] = Some st" and r: "rev st = [n]"
    by (auto simp: Join_def split: option.splits list.splits)
  from r have "n \<in> set st" by (metis list.set_intros(1) set_rev)
  with walk_components [OF w]
  have "n \<in> set (split_path k)" "n \<noteq> []" "n \<noteq> ''.''" "n \<noteq> ''..''" by auto
  with split_path_component [of n k] z show ?thesis by (auto simp: plain_iff)
qed

lemma plain_at:
  assumes "plain k"
  shows "ReadFile_at io fs k = os_ReadFile io fs k"
    and "WriteFile_at io fs k v = os_WriteFile io fs k v"
    and "Remove_at io fs k = os_Remove io fs k"
    and "Stat_at io fs k = os_Stat io fs k"
  using assms by (simp_all add: plain_def ReadFile_at_def WriteFile_at_def Remove_at_def Stat_at_def)

subsection \<open>DiskStorage: single operations\<close>

lemma Disk_Delete_state:
  "map_of (data (memory (snd (DiskStorage_Delete d k io)))) = (map_of (data (memory d)))(k := None)"
  "Join k = Entry n \<Longrightarrow> map_of (files (snd (DiskStorage_Delete d k io))) k' =
     (if k' = n \<and> \<not> io (Remove_file n) \<and> map_of (files d) n \<noteq> Some (Dir True)
      then None else map_of (files d) k')"
proof -
  show "map_of (data (memory (snd (DiskStorage_Delete d k io)))) = (map_of (data (memory d)))(k := None)"
    by (simp add: DiskStorage_Delete_def MemoryStorage_Delete_def delete_conv' Let_def split: prod.splits)
  show "map_of (files (snd (DiskStorage_Delete d k io))) k' =
     (if k' = n \<and> \<not> io (Remove_file n) \<and> map_of (files d) n \<noteq> Some (Dir True)
      then None else map_of (files d) k')" if "Join k = Entry n"
    using that
    by (auto simp: DiskStorage_Delete_def Remove_at_def os_Remove_def delete_conv' Let_def
             split: prod.splits option.splits fentry.splits bool.splits)
qed

text \<open>What \<open>Get\<close> answers once the cache has no unexpired entry for the key.\<close>

lemma Disk_Get_miss:
  assumes "\<not> MemoryStorage_Has (memory d) k now"
  shows "fst (DiskStorage_Get d k io now) =
     (case ReadFile_at io (files d) k of
        Inl NotExist \<Rightarrow> Inl ErrKeyNotFound
      | Inl Failed \<Rightarrow> Inl ErrIO
      | Inr None \<Rightarrow> Inl ErrDecode
      | Inr (Some v) \<Rightarrow> if expired v now then Inl ErrKeyExpired else Inr v)"
proof -
  obtain e m where g: "MemoryStorage_Get (memory d) k now = (Inl e, m)"
    using assms
    by (auto simp: MemoryStorage_Get_def MemoryStorage_Has_def split: option.splits if_splits)
  show ?thesis
    by (simp add: DiskStorage_Get_def g Let_def split: sum.splits oserror.splits option.splits)
qed

lemma Disk_Get_hit:
  assumes "map_of (data (memory d)) k = Some v" "\<not> expired v now"
  shows "DiskStorage_Get d k io now = (Inr v, d)"
  using assms by (simp add: DiskStorage_Get_def MemoryStorage_Get_def)

lemma Disk_Get_expired_state:
  assumes "\<not> MemoryStorage_Has (memory d) k now" "Join k = Entry n" "\<not> io (ReadFile n)"
    and "map_of (files d) n = Some (File (Some v))" "expired v now"
  shows "map_of (data (memory (snd (DiskStorage_Get d k io now)))) k = None"
    and "map_of (files (snd (DiskStorage_Get d k io now))) n =
           (if io (Remove_file n) then Some (File (Some v)) else None)"
proof -
  obtain e m where g: "MemoryStorage_Get (memory d) k now = (Inl e, m)"
    using assms(1)
    by (auto simp: MemoryStorage_Get_def MemoryStorage_Has_def split: option.splits if_splits)
  have s: "snd (DiskStorage_Get d k io now) = snd (DiskStorage_Delete (d\<lparr>memory := m\<rparr>) k io)"
    using assms by (simp add: DiskStorage_Get_def g Let_def ReadFile_at_def os_ReadFile_def)
  show "map_of (data (memory (snd (DiskStorage_Get d k io now)))) k = None"
    by (simp add: s Disk_Delete_state)
  show "map_of (files (snd (DiskStorage_Get d k io now))) n =
           (if io (Remove_file n) then Some (File (Some v)) else None)"
    using assms(4) by (simp add: s Disk_Delete_state(2) [OF assms(2)])
qed

lemma Disk_Has_expired:
  assumes "map_of (data (memory d)) k = None" "Join k = Entry n"
    and "map_of (files d) n = None \<or> (\<exists>v. map_of (files d) n = Some (File (Some v)) \<and> expired v t)"
  shows "\<not> fst (DiskStorage_Has d k io t)"
  using assms
  by (auto simp: DiskStorage_Has_def MemoryStorage_Has_def Stat_at_def ReadFile_at_def
        os_Stat_def os_ReadFile_def)

subsection \<open>Claims about single storage operations\<close>

text \<open>
  Claim C3 does not hold as stated on the durable backend, where a key can be present
  with a past expiration and \<open>Get\<close> still returns \<open>ErrKeyNotFound\<close>. On a new store,
  \<open>Set\<close> of key \<open>a\<close> with expiration 5 and \<open>Keys\<close> at time 10, no call of the operating
  system failing: \<open>Keys\<close> has removed the file, the cache still holds the entry, and
  \<open>Get\<close> at time 11 finds the entry expired in the cache, looks for the file, and
  returns \<open>ErrKeyNotFound\<close>. The volatile backend returns \<open>ErrKeyExpired\<close> after the
  same \<open>Set\<close>.
\<close>

theorem Get_expired_in_cache_not_found:
  "NewDiskStorage [] healthy 0 = Inr \<lparr>memory = NewMemoryStorage, files = []\<rparr>
 \<and> map_of (data (memory (snd (DiskStorage_Keys (snd (DiskStorage_Set \<lparr>memory = NewMemoryStorage, files = []\<rparr>
        ''a'' \<lparr>Data = [1], Expiration = 5\<rparr> healthy)) healthy 10)))) ''a'' = Some \<lparr>Data = [1], Expiration = 5\<rparr>
 \<and> expired \<lparr>Data = [1], Expiration = 5\<rparr> 11
 \<and> fst (DiskStorage_Get (snd (DiskStorage_Keys (snd (DiskStorage_Set \<lparr>memory = NewMemoryStorage, files = []\<rparr>
        ''a'' \<lparr>Data = [1], Expiration = 5\<rparr> healthy)) healthy 10)) ''a'' healthy 11) = Inl ErrKeyNotFound
 \<and> fst (MemoryStorage_Get (snd (MemoryStorage_Set NewMemoryStorage ''a'' \<lparr>Data = [1], Expiration = 5\<rparr>)) ''a'' 11)
      = Inl ErrKeyExpired"
proof -
  let ?v = "\<lparr>Data = [1], Expiration = 5\<rparr>"
  have n: "NewDiskStorage [] healthy 0 = Inr \<lparr>memory = NewMemoryStorage, files = []\<rparr>"
    by (simp add: NewDiskStorage_def loadFromDisk_def os_ReadDir_def healthy_def)
  have j: "Join ''a'' = Entry ''a''" by (simp add: Join_def)
  have s: "snd (DiskStorage_Set \<lparr>memory = NewMemoryStorage, files = []\<rparr> ''a'' ?v healthy)
      = \<lparr>memory = \<lparr>data = [(''a'', ?v)]\<rparr>, files = [(''a'', File (Some ?v))]\<rparr>"
    by (simp add: DiskStorage_Set_def MemoryStorage_Set_def NewMemoryStorage_def WriteFile_at_def j
          os_WriteFile_def healthy_def)
  have k: "snd (DiskStorage_Keys \<lparr>memory = \<lparr>data = [(''a'', ?v)]\<rparr>, files = [(''a'', File (Some ?v))]\<rparr> healthy 10)
      = \<lparr>memory = \<lparr>data = [(''a'', ?v)]\<rparr>, files = []\<rparr>"
    by (simp add: DiskStorage_Keys_def loadFromDisk_def load_entry_def os_ReadDir_def os_ReadFile_def
          os_Remove_def expired_def healthy_def)
  have g: "fst (DiskStorage_Get \<lparr>memory = \<lparr>data = [(''a'', ?v)]\<rparr>, files = []\<rparr> ''a'' healthy 11)
      = Inl ErrKeyNotFound"
    by (simp add: DiskStorage_Get_def MemoryStorage_Get_def MemoryStorage_Delete_def ReadFile_at_def j
          os_ReadFile_def expired_def healthy_def)
  have m: "fst (MemoryStorage_Get (snd (MemoryStorage_Set NewMemoryStorage ''a'' ?v)) ''a'' 11)
      = Inl ErrKeyExpired"
    by (simp add: MemoryStorage_Get_def MemoryStorage_Set_def NewMemoryStorage_def expired_def)
  show ?thesis unfolding s k using n g m by (simp add: expired_def)
qed

text \<open>
  Claim C3, as amended. On the volatile backend \<open>Get\<close> of a key that is not in the map
  returns \<open>ErrKeyNotFound\<close>; \<open>Get\<close> of a key whose value has expired returns
  \<open>ErrKeyExpired\<close> and deletes the entry, so that \<open>Has\<close> is false afterwards. On the
  durable backend the file of the key decides once the cache has no unexpired entry for
  the key (the path of the key being an entry \<open>n\<close> of the directory that can be read):
  without a file \<open>Get\<close> returns \<open>ErrKeyNotFound\<close>, also when the cache holds an expired
  entry for the key; with a file whose value has expired \<open>Get\<close> returns \<open>ErrKeyExpired\<close>,
  the entry is deleted from the cache and the file is removed (unless the removal
  fails), and \<open>Has\<close> is false at that time and at any later time.
\<close>

theorem Get_absent_or_expired:
  "(map_of (data m) k = None \<longrightarrow> fst (MemoryStorage_Get m k now) = Inl ErrKeyNotFound)
 \<and> (map_of (data m) k = Some v \<and> expired v now \<longrightarrow>
      fst (MemoryStorage_Get m k now) = Inl ErrKeyExpired
    \<and> map_of (data (snd (MemoryStorage_Get m k now))) k = None
    \<and> \<not> MemoryStorage_Has (snd (MemoryStorage_Get m k now)) k t)
 \<and> (\<not> MemoryStorage_Has (memory d) k now \<and> Join k = Entry n \<and> \<not> io (ReadFile n)
      \<and> map_of (files d) n = None \<longrightarrow>
      fst (DiskStorage_Get d k io now) = Inl ErrKeyNotFound)
 \<and> (\<not> MemoryStorage_Has (memory d) k now \<and> Join k = Entry n \<and> \<not> io (ReadFile n)
      \<and> map_of (files d) n = Some (File (Some v)) \<and> expired v now \<longrightarrow>
      fst (DiskStorage_Get d k io now) = Inl ErrKeyExpired
    \<and> map_of (data (memory (snd (DiskStorage_Get d k io now)))) k = None
    \<and> (\<not> io (Remove_file n) \<longrightarrow> map_of (files (snd (DiskStorage_Get d k io now))) n = None)
    \<and> (now \<le> t \<longrightarrow> \<not> fst (DiskStorage_Has (snd (DiskStorage_Get d k io now)) k io' t)))"
proof -
  have m1: "map_of (data m) k = None \<longrightarrow> fst (MemoryStorage_Get m k now) = Inl ErrKeyNotFound"
    by (simp add: Memory_Get_result)
  have m2: "map_of (data m) k = Some v \<and> expired v now \<longrightarrow>
      fst (MemoryStorage_Get m k now) = Inl ErrKeyExpired
    \<and> map_of (data (snd (MemoryStorage_Get m k now))) k = None
    \<and> \<not> MemoryStorage_Has (snd (MemoryStorage_Get m k now)) k t"
    by (simp add: Memory_Get_result Memory_Get_state Memory_Has_iff)
  have d1: "\<not> MemoryStorage_Has (memory d) k now \<and> Join k = Entry n \<and> \<not> io (ReadFile n)
      \<and> map_of (files d) n = None \<longrightarrow>
      fst (DiskStorage_Get d k io now) = Inl ErrKeyNotFound"
    by (simp add: Disk_Get_miss ReadFile_at_def os_ReadFile_def)
  have d2: "fst (DiskStorage_Get d k io now) = Inl ErrKeyExpired
    \<and> map_of (data (memory (snd (DiskStorage_Get d k io now)))) k = None
    \<and> (\<not> io (Remove_file n) \<longrightarrow> map_of (files (snd (DiskStorage_Get d k io now))) n = None)
    \<and> (now \<le> t \<longrightarrow> \<not> fst (DiskStorage_Has (snd (DiskStorage_Get d k io now)) k io' t))"
    if h: "\<not> MemoryStorage_Has (memory d) k now" "Join k = Entry n" "\<not> io (ReadFile n)"
      "map_of (files d) n = Some (File (Some v))" "expired v now"
  proof -
    note st = Disk_Get_expired_state [where d=d and k=k and io=io and now=now and v=v and n=n, OF h]
    have "\<not> fst (DiskStorage_Has (snd (DiskStorage_Get d k io now)) k io' t)" if "now \<le> t"
    proof (rule Disk_Has_expired [where n=n])
      show "map_of (data (memory (snd (DiskStorage_Get d k io now)))) k = None" by (rule st(1))
      show "Join k = Entry n" by (rule h(2))
      show "map_of (files (snd (DiskStorage_Get d k io now))) n = None
          \<or> (\<exists>v. map_of (files (snd (DiskStorage_Get d k io now))) n = Some (File (Some v)) \<and> expired v t)"
        using st(2) expired_mono [OF h(5) that] by auto
    qed
    then show ?thesis using h st by (simp add: Disk_Get_miss ReadFile_at_def os_ReadFile_def)
  qed
  from m1 m2 d1 d2 show ?thesis by blast
qed

text \<open>Concrete stores for the hypotheses: an empty store, and the store left by a
  \<open>Set\<close> of key \<open>a\<close> with expiration 5, read at time 10.\<close>

theorem Get_absent_or_expired_witness:
  "map_of (data NewMemoryStorage) ''a'' = None
 \<and> fst (MemoryStorage_Get NewMemoryStorage ''a'' 10) = Inl ErrKeyNotFound
 \<and> map_of (data \<lparr>data = [(''a'', \<lparr>Data = [], Expiration = 5\<rparr>)]\<rparr>) ''a'' = Some \<lparr>Data = [], Expiration = 5\<rparr>
 \<and> expired \<lparr>Data = [], Expiration = 5\<rparr> 10
 \<and> fst (MemoryStorage_Get \<lparr>data = [(''a'', \<lparr>Data = [], Expiration = 5\<rparr>)]\<rparr> ''a'' 10) = Inl ErrKeyExpired
 \<and> \<not> MemoryStorage_Has (snd (MemoryStorage_Get \<lparr>data = [(''a'', \<lparr>Data = [], Expiration = 5\<rparr>)]\<rparr> ''a'' 10)) ''a'' 11
 \<and> \<not> MemoryStorage_Has (memory \<lparr>memory = NewMemoryStorage, files = []\<rparr>) ''a'' 10
 \<and> Join ''a'' = Entry ''a''
 \<and> \<not> healthy (ReadFile ''a'')
 \<and> fst (DiskStorage_Get \<lparr>memory = NewMemoryStorage, files = []\<rparr> ''a'' healthy 10) = Inl ErrKeyNotFound
 \<and> \<not> MemoryStorage_Has (memory (snd (DiskStorage_Set \<lparr>memory = NewMemoryStorage, files = []\<rparr> ''a''
        \<lparr>Data = [], Expiration = 5\<rparr> healthy))) ''a'' 10
 \<and> map_of (files (snd (DiskStorage_Set \<lparr>memory = NewMemoryStorage, files = []\<rparr> ''a''
        \<lparr>Data = [], Expiration = 5\<rparr> healthy))) ''a'' = Some (File (Some \<lparr>Data = [], Expiration = 5\<rparr>))
 \<and> fst (DiskStorage_Get (snd (DiskStorage_Set \<lparr>memory = NewMemoryStorage, files = []\<rparr> ''a''
        \<lparr>Data = [], Expiration = 5\<rparr> healthy)) ''a'' healthy 10) = Inl ErrKeyExpired
 \<and> 10 \<le> (11::int)
 \<and> \<not> fst (DiskStorage_Has (snd (DiskStorage_Get (snd (DiskStorage_Set \<lparr>memory = NewMemoryStorage, files = []\<rparr> ''a''
        \<lparr>Data = [], Expiration = 5\<rparr> healthy)) ''a'' healthy 10)) ''a'' healthy 11)"
proof -
  let ?v = "\<lparr>Data = [], Expiration = 5\<rparr>"
  let ?d = "snd (DiskStorage_Set \<lparr>memory = NewMemoryStorage, files = []\<rparr> ''a'' ?v healthy)"
  have j: "Join ''a'' = Entry ''a''" by (simp add: Join_def)
  have d: "?d = \<lparr>memory = \<lparr>data = [(''a'', ?v)]\<rparr>, files = [(''a'', File (Some ?v))]\<rparr>"
    by (simp add: DiskStorage_Set_def MemoryStorage_Set_def NewMemoryStorage_def WriteFile_at_def j
          os_WriteFile_def healthy_def)
  have e: "expired ?v 10" by (simp add: expired_def)
  have h1: "map_of (data NewMemoryStorage) ''a'' = None" by (simp add: NewMemoryStorage_def)
  have h2: "map_of (data \<lparr>data = [(''a'', ?v)]\<rparr>) ''a'' = Some ?v" by simp
  have h3: "\<not> MemoryStorage_Has (memory \<lparr>memory = NewMemoryStorage, files = []\<rparr>) ''a'' 10"
    by (simp add: MemoryStorage_Has_def NewMemoryStorage_def)
  have h4: "\<not> healthy (ReadFile ''a'')" "\<not> healthy (Remove_file ''a'')" by (simp_all add: healthy_def)
  have h5: "\<not> MemoryStorage_Has (memory ?d) ''a'' 10"
    unfolding d using e by (simp add: MemoryStorage_Has_def)
  have h6: "map_of (files ?d) ''a'' = Some (File (Some ?v))" unfolding d by simp
  have h7: "map_of (files \<lparr>memory = NewMemoryStorage, files = []\<rparr>) ''a'' = None" by simp
  from Get_absent_or_expired [of NewMemoryStorage "''a''" 10 ?v 11 "\<lparr>memory = NewMemoryStorage, files = []\<rparr>" "''a''" healthy healthy]
       Get_absent_or_expired [of "\<lparr>data = [(''a'', ?v)]\<rparr>" "''a''" 10 ?v 11 ?d "''a''" healthy healthy]
       e j h1 h2 h3 h4 h5 h6 h7
  show ?thesis by simp
qed

text \<open>
  Claim C9. \<open>DiskStorage.Set\<close> stores the value in the cache first. Whenever the write of
  the file then fails, \<open>Set\<close> returns an error, the directory is as before, the cache
  holds the new value, and a later \<open>Get\<close> of the key returns the new value from the
  cache as long as that value has not expired.
\<close>

theorem Set_failed_write_diverges:
  assumes "fst (WriteFile_at io (files d) key val) \<noteq> None"
  shows "fst (DiskStorage_Set d key val io) = Some ErrIO
       \<and> files (snd (DiskStorage_Set d key val io)) = files d
       \<and> map_of (data (memory (snd (DiskStorage_Set d key val io)))) key = Some val
       \<and> (\<not> expired val now \<longrightarrow>
            fst (DiskStorage_Get (snd (DiskStorage_Set d key val io)) key io' now) = Inr val)"
proof -
  from assms have w: "WriteFile_at io (files d) key val = (Some Failed, files d)"
    by (auto simp: WriteFile_at_def os_WriteFile_def split: place.splits if_splits option.splits fentry.splits)
  have s: "DiskStorage_Set d key val io =
      (Some ErrIO, \<lparr>memory = (memory d)\<lparr>data := AList.update key val (data (memory d))\<rparr>, files = files d\<rparr>)"
    by (simp add: DiskStorage_Set_def MemoryStorage_Set_def w)
  have c: "map_of (data (memory (snd (DiskStorage_Set d key val io)))) key = Some val"
    by (simp add: s update_conv')
  have "fst (DiskStorage_Get (snd (DiskStorage_Set d key val io)) key io' now) = Inr val"
    if "\<not> expired val now"
    using Disk_Get_hit [OF c that] by simp
  with s c show ?thesis by simp
qed

text \<open>A write to a directory where every write fails: the old value 1 stays on disk,
  the cache answers with the new value 2.\<close>

theorem Set_failed_write_diverges_witness:
  "fst (WriteFile_at (\<lambda>c. True) (files \<lparr>memory = \<lparr>data = [(''a'', \<lparr>Data = [1], Expiration = 0\<rparr>)]\<rparr>,
          files = [(''a'', File (Some \<lparr>Data = [1], Expiration = 0\<rparr>))]\<rparr>) ''a'' \<lparr>Data = [2], Expiration = 0\<rparr>) \<noteq> None
 \<and> fst (DiskStorage_Set \<lparr>memory = \<lparr>data = [(''a'', \<lparr>Data = [1], Expiration = 0\<rparr>)]\<rparr>,
          files = [(''a'', File (Some \<lparr>Data = [1], Expiration = 0\<rparr>))]\<rparr> ''a'' \<lparr>Data = [2], Expiration = 0\<rparr> (\<lambda>c. True)) = Some ErrIO
 \<and> \<not> expired \<lparr>Data = [2], Expiration = 0\<rparr> 10
 \<and> fst (DiskStorage_Get (snd (DiskStorage_Set \<lparr>memory = \<lparr>data = [(''a'', \<lparr>Data = [1], Expiration = 0\<rparr>)]\<rparr>,
          files = [(''a'', File (Some \<lparr>Data = [1], Expiration = 0\<rparr>))]\<rparr> ''a'' \<lparr>Data = [2], Expiration = 0\<rparr> (\<lambda>c. True)))
        ''a'' healthy 10) = Inr \<lparr>Data = [2], Expiration = 0\<rparr>
 \<and> map_of (files (snd (DiskStorage_Set \<lparr>memory = \<lparr>data = [(''a'', \<lparr>Data = [1], Expiration = 0\<rparr>)]\<rparr>,
          files = [(''a'', File (Some \<lparr>Data = [1], Expiration = 0\<rparr>))]\<rparr> ''a'' \<lparr>Data = [2], Expiration = 0\<rparr> (\<lambda>c. True)))) ''a''
      = Some (File (Some \<lparr>Data = [1], Expiration = 0\<rparr>))"
proof -
  let ?d = "\<lparr>memory = \<lparr>data = [(''a'', \<lparr>Data = [1], Expiration = 0\<rparr>)]\<rparr>,
          files = [(''a'', File (Some \<lparr>Data = [1], Expiration = 0\<rparr>))]\<rparr>"
  have h1: "fst (WriteFile_at (\<lambda>c. True) (files ?d) ''a'' \<lparr>Data = [2], Expiration = 0\<rparr>) \<noteq> None"
    by (simp add: WriteFile_at_def Join_def os_WriteFile_def)
  have h2: "\<not> expired \<lparr>Data = [2], Expiration = 0\<rparr> 10" by (simp add: expired_def)
  from Set_failed_write_diverges [OF h1, of 10 healthy] h1 h2
  show ?thesis by simp
qed

subsection \<open>DiskStorage: reloading the directory\<close>

lemma load_entry_state:
  assumes "map_of (files d) n = Some e"
  shows "map_of (data (memory (load_entry io now (n, e) d))) k =
           (if k = n then (case loaded io now (files d) n of
                             Some v \<Rightarrow> Some v | None \<Rightarrow> map_of (data (memory d)) n)
            else map_of (data (memory d)) k)"
    and "map_of (files (load_entry io now (n, e) d)) k =
           (if k = n \<and> removed io now (files d) n then None else map_of (files d) k)"
proof -
  show "map_of (data (memory (load_entry io now (n, e) d))) k =
           (if k = n then (case loaded io now (files d) n of
                             Some v \<Rightarrow> Some v | None \<Rightarrow> map_of (data (memory d)) n)
            else map_of (data (memory d)) k)"
    using assms
    by (auto simp: load_entry_def loaded_def os_ReadFile_def MemoryStorage_Set_def update_conv'
             split: fentry.splits option.splits)
  show "map_of (files (load_entry io now (n, e) d)) k =
           (if k = n \<and> removed io now (files d) n then None else map_of (files d) k)"
    using assms
    by (auto simp: load_entry_def removed_def os_ReadFile_def os_Remove_def delete_conv'
             split: fentry.splits option.splits)
qed

lemma fold_load_entry:
  assumes "distinct (map fst es)" "\<forall>(n, e) \<in> set es. map_of (files d) n = Some e"
  shows "map_of (data (memory (fold (load_entry io now) es d))) k =
           (if k \<in> fst ` set es
            then (case loaded io now (files d) k of
                    Some v \<Rightarrow> Some v | None \<Rightarrow> map_of (data (memory d)) k)
            else map_of (data (memory d)) k)
       \<and> map_of (files (fold (load_entry io now) es d)) k =
           (if k \<in> fst ` set es \<and> removed io now (files d) k then None else map_of (files d) k)"
  using assms
proof (induction es arbitrary: d)
  case Nil
  show ?case by simp
next
  case (Cons x es)
  obtain n e where x: "x = (n, e)" by (cases x)
  let ?d1 = "load_entry io now (n, e) d"
  from Cons.prems x have ne: "map_of (files d) n = Some e" by simp
  note st = load_entry_state [OF ne, of io now]
  from Cons.prems x have nn: "n \<notin> fst ` set es" and dist: "distinct (map fst es)" by auto
  have cons: "\<forall>(n', e') \<in> set es. map_of (files ?d1) n' = Some e'"
  proof (clarify)
    fix n' e' assume m: "(n', e') \<in> set es"
    with nn have "n' \<noteq> n" by force
    with m Cons.prems(2) show "map_of (files ?d1) n' = Some e'" by (auto simp: st)
  qed
  note IH = Cons.IH [OF dist cons]
  have same: "k \<noteq> n \<Longrightarrow> loaded io now (files ?d1) k = loaded io now (files d) k
                      \<and> removed io now (files ?d1) k = removed io now (files d) k"
    by (simp add: loaded_def removed_def st)
  show ?case
  proof (cases "k = n")
    case True
    with nn IH show ?thesis by (simp add: x st split: option.splits)
  next
    case False
    with IH same show ?thesis by (simp add: x st split: option.splits)
  qed
qed

lemma clearjunk_entries:
  "distinct (map fst (AList.clearjunk fs))"
  "\<forall>(n, e) \<in> set (AList.clearjunk fs). map_of fs n = Some e"
  "fst ` set (AList.clearjunk fs) = dom (map_of fs)"
proof -
  show d: "distinct (map fst (AList.clearjunk fs))" by simp
  show "\<forall>(n, e) \<in> set (AList.clearjunk fs). map_of fs n = Some e"
    using map_of_is_SomeI [OF d] by (auto simp: map_of_clearjunk)
  show "fst ` set (AList.clearjunk fs) = dom (map_of fs)"
    by (simp add: dom_clearjunk dom_map_of_conv_image_fst)
qed

lemma loadFromDisk_state:
  assumes "\<not> io ReadDir"
  shows "fst (loadFromDisk d io now) = None"
    and "map_of (data (memory (snd (loadFromDisk d io now)))) k =
           (case loaded io now (files d) k of
              Some v \<Rightarrow> Some v | None \<Rightarrow> map_of (data (memory d)) k)"
    and "map_of (files (snd (loadFromDisk d io now))) k =
           (if removed io now (files d) k then None else map_of (files d) k)"
proof -
  have l: "loadFromDisk d io now = (None, fold (load_entry io now) (AList.clearjunk (files d)) d)"
    using assms by (simp add: loadFromDisk_def os_ReadDir_def)
  note f = fold_load_entry [where es="AList.clearjunk (files d)" and d=d and io=io and now=now and k=k,
      OF clearjunk_entries(1,2)]
  have nl: "k \<notin> dom (map_of (files d)) \<Longrightarrow> loaded io now (files d) k = None"
    by (auto simp: loaded_def dom_def)
  show "fst (loadFromDisk d io now) = None" by (simp add: l)
  show "map_of (data (memory (snd (loadFromDisk d io now)))) k =
           (case loaded io now (files d) k of
              Some v \<Rightarrow> Some v | None \<Rightarrow> map_of (data (memory d)) k)"
    using f nl by (simp add: l clearjunk_entries(3))
  show "map_of (files (snd (loadFromDisk d io now))) k =
           (if removed io now (files d) k then None else map_of (files d) k)"
    using f by (auto simp: l clearjunk_entries(3) removed_def dom_def split: option.splits)
qed

lemma loadFromDisk_failed: "io ReadDir \<Longrightarrow> loadFromDisk d io now = (Some ErrIO, d)"
  by (simp add: loadFromDisk_def os_ReadDir_def)

lemma Disk_Keys_eq:
  "DiskStorage_Keys d io now =
     (MemoryStorage_Keys (memory (snd (loadFromDisk d io now))) now, snd (loadFromDisk d io now))"
  by (simp add: DiskStorage_Keys_def split: prod.splits option.splits)

text \<open>The state after \<open>Keys\<close>, with or without a failing listing.\<close>

lemma Disk_Keys_state:
  "map_of (data (memory (snd (DiskStorage_Keys d io now)))) k =
     (if io ReadDir then map_of (data (memory d)) k
      else case loaded io now (files d) k of
             Some v \<Rightarrow> Some v | None \<Rightarrow> map_of (data (memory d)) k)"
  "map_of (files (snd (DiskStorage_Keys d io now))) k =
     (if \<not> io ReadDir \<and> removed io now (files d) k then None else map_of (files d) k)"
  by (cases "io ReadDir"; simp add: Disk_Keys_eq loadFromDisk_failed loadFromDisk_state)+

subsection \<open>The claim about Keys\<close>

text \<open>
  Claim C8, as amended. On the volatile backend \<open>Keys\<close> returns exactly the keys whose
  values have not expired, and it returns nothing but the keys: the store is as before.
  On the durable backend \<open>Keys\<close> first reloads the directory and then returns exactly the
  keys of the cache whose values have not expired. The reload deletes no entry of the
  cache, and it changes the directory only by removing files that hold an expired value;
  when no call of the operating system fails it removes every such file and brings
  every file with an unexpired value into the cache.
\<close>

theorem Keys_filters_expired:
  "set (MemoryStorage_Keys m now) = {k. \<exists>v. map_of (data m) k = Some v \<and> \<not> expired v now}
 \<and> snd (Storage_Keys (Volatile m) io now) = Volatile m
 \<and> set (fst (DiskStorage_Keys d io now)) =
      {k. \<exists>v. map_of (data (memory (snd (DiskStorage_Keys d io now)))) k = Some v \<and> \<not> expired v now}
 \<and> (map_of (data (memory d)) k \<noteq> None \<longrightarrow>
      map_of (data (memory (snd (DiskStorage_Keys d io now)))) k \<noteq> None)
 \<and> (map_of (files (snd (DiskStorage_Keys d io now))) k \<noteq> map_of (files d) k \<longrightarrow>
      map_of (files (snd (DiskStorage_Keys d io now))) k = None
    \<and> (\<exists>v. map_of (files d) k = Some (File (Some v)) \<and> expired v now))
 \<and> (map_of (files d) k = Some (File (Some v)) \<and> expired v now \<longrightarrow>
      map_of (files (snd (DiskStorage_Keys d healthy now))) k = None)
 \<and> (map_of (files d) k = Some (File (Some v)) \<and> \<not> expired v now \<longrightarrow>
      map_of (data (memory (snd (DiskStorage_Keys d healthy now)))) k = Some v)"
proof -
  have a: "set (MemoryStorage_Keys m now) = {k. \<exists>v. map_of (data m) k = Some v \<and> \<not> expired v now}"
    by (rule Memory_Keys_set)
  have b: "snd (Storage_Keys (Volatile m) io now) = Volatile m" by simp
  have c: "set (fst (DiskStorage_Keys d io now)) =
      {k. \<exists>v. map_of (data (memory (snd (DiskStorage_Keys d io now)))) k = Some v \<and> \<not> expired v now}"
    by (simp add: Disk_Keys_eq Memory_Keys_set)
  have e: "map_of (data (memory d)) k \<noteq> None \<longrightarrow>
      map_of (data (memory (snd (DiskStorage_Keys d io now)))) k \<noteq> None"
    by (simp add: Disk_Keys_state split: option.splits)
  have f: "map_of (files (snd (DiskStorage_Keys d io now))) k \<noteq> map_of (files d) k \<longrightarrow>
      map_of (files (snd (DiskStorage_Keys d io now))) k = None
    \<and> (\<exists>v. map_of (files d) k = Some (File (Some v)) \<and> expired v now)"
    by (auto simp: Disk_Keys_state removed_def split: option.splits fentry.splits if_splits)
  have g: "map_of (files d) k = Some (File (Some v)) \<and> expired v now \<longrightarrow>
      map_of (files (snd (DiskStorage_Keys d healthy now))) k = None"
    by (simp add: Disk_Keys_state removed_def healthy_def)
  have h: "map_of (files d) k = Some (File (Some v)) \<and> \<not> expired v now \<longrightarrow>
      map_of (data (memory (snd (DiskStorage_Keys d healthy now)))) k = Some v"
    by (simp add: Disk_Keys_state loaded_def healthy_def)
  from a b c e f g h show ?thesis by blast
qed

text \<open>
  Claim C8 as stated fails on the durable backend. After a successful \<open>Set\<close> of key \<open>a\<close>
  with expiration 5, \<open>Keys\<close> at time 10 returns no key and has removed the file of \<open>a\<close>
  from the directory: the store is not as before.
\<close>

theorem Keys_removes_expired_file:
  "fst (DiskStorage_Set \<lparr>memory = NewMemoryStorage, files = []\<rparr> ''a'' \<lparr>Data = [1], Expiration = 5\<rparr> healthy) = None
 \<and> snd (DiskStorage_Set \<lparr>memory = NewMemoryStorage, files = []\<rparr> ''a'' \<lparr>Data = [1], Expiration = 5\<rparr> healthy)
     = \<lparr>memory = \<lparr>data = [(''a'', \<lparr>Data = [1], Expiration = 5\<rparr>)]\<rparr>,
        files = [(''a'', File (Some \<lparr>Data = [1], Expiration = 5\<rparr>))]\<rparr>
 \<and> DiskStorage_Keys \<lparr>memory = \<lparr>data = [(''a'', \<lparr>Data = [1], Expiration = 5\<rparr>)]\<rparr>,
                      files = [(''a'', File (Some \<lparr>Data = [1], Expiration = 5\<rparr>))]\<rparr> healthy 10
     = ([], \<lparr>memory = \<lparr>data = [(''a'', \<lparr>Data = [1], Expiration = 5\<rparr>)]\<rparr>, files = []\<rparr>)"
  by (simp add: DiskStorage_Set_def MemoryStorage_Set_def NewMemoryStorage_def WriteFile_at_def
        Join_def os_WriteFile_def healthy_def DiskStorage_Keys_def loadFromDisk_def os_ReadDir_def load_entry_def
        os_ReadFile_def os_Remove_def expired_def MemoryStorage_Keys_def)

text \<open>The store of the counterexample meets the hypotheses of the amended claim, as
  does a store with an unexpired value.\<close>

theorem Keys_filters_expired_witness:
  "map_of (data (memory \<lparr>memory = \<lparr>data = [(''a'', \<lparr>Data = [1], Expiration = 5\<rparr>)]\<rparr>,
                      files = [(''a'', File (Some \<lparr>Data = [1], Expiration = 5\<rparr>))]\<rparr>)) ''a'' \<noteq> None
 \<and> map_of (data (memory (snd (DiskStorage_Keys \<lparr>memory = \<lparr>data = [(''a'', \<lparr>Data = [1], Expiration = 5\<rparr>)]\<rparr>,
                      files = [(''a'', File (Some \<lparr>Data = [1], Expiration = 5\<rparr>))]\<rparr> healthy 10)))) ''a'' \<noteq> None
 \<and> map_of (files (snd (DiskStorage_Keys \<lparr>memory = \<lparr>data = [(''a'', \<lparr>Data = [1], Expiration = 5\<rparr>)]\<rparr>,
                      files = [(''a'', File (Some \<lparr>Data = [1], Expiration = 5\<rparr>))]\<rparr> healthy 10))) ''a''
      \<noteq> map_of (files \<lparr>memory = \<lparr>data = [(''a'', \<lparr>Data = [1], Expiration = 5\<rparr>)]\<rparr>,
                      files = [(''a'', File (Some \<lparr>Data = [1], Expiration = 5\<rparr>))]\<rparr>) ''a''
 \<and> expired \<lparr>Data = [1], Expiration = 5\<rparr> 10
 \<and> map_of (files \<lparr>memory = NewMemoryStorage, files = [(''b'', File (Some \<lparr>Data = [2], Expiration = 0\<rparr>))]\<rparr>) ''b''
      = Some (File (Some \<lparr>Data = [2], Expiration = 0\<rparr>))
 \<and> \<not> expired \<lparr>Data = [2], Expiration = 0\<rparr> 10
 \<and> map_of (data (memory (snd (DiskStorage_Keys
        \<lparr>memory = NewMemoryStorage, files = [(''b'', File (Some \<lparr>Data = [2], Expiration = 0\<rparr>))]\<rparr> healthy 10)))) ''b''
      = Some \<lparr>Data = [2], Expiration = 0\<rparr>"
proof -
  let ?va = "\<lparr>Data = [1], Expiration = 5\<rparr>" and ?vb = "\<lparr>Data = [2], Expiration = 0\<rparr>"
  let ?da = "\<lparr>memory = \<lparr>data = [(''a'', ?va)]\<rparr>, files = [(''a'', File (Some ?va))]\<rparr>"
  let ?db = "\<lparr>memory = NewMemoryStorage, files = [(''b'', File (Some ?vb))]\<rparr>"
  have ea: "expired ?va 10" and eb: "\<not> expired ?vb 10" by (simp_all add: expired_def)
  have h1: "map_of (data (memory ?da)) ''a'' \<noteq> None" by simp
  have h2: "map_of (files ?da) ''a'' = Some (File (Some ?va))" by simp
  have h3: "map_of (files ?db) ''b'' = Some (File (Some ?vb))" by simp
  from Keys_filters_expired [of _ 10 healthy ?da "''a''" ?va]
       Keys_filters_expired [of _ 10 healthy ?db "''b''" ?vb]
       ea eb h1 h2 h3
  show ?thesis by simp
qed

section \<open>Properties of the state machine\<close>

subsection \<open>Coherent and synchronised durable stores\<close>

lemma clearjunk_mem: "(k, x) \<in> set (AList.clearjunk al) \<longleftrightarrow> map_of al k = Some x"
  using map_of_eq_Some_iff [of "AList.clearjunk al" k x] by (simp add: map_of_clearjunk)

lemma coherent_iff:
  "coherent d now \<longleftrightarrow>
     (\<forall>k e. map_of (files d) k = Some e \<longrightarrow> plain k \<and> (\<exists>v. e = File (Some v)))
   \<and> (\<forall>k v. map_of (data (memory d)) k = Some v \<longrightarrow>
         map_of (files d) k = Some (File (Some v)) \<or> (map_of (files d) k = None \<and> expired v now))"
proof -
  have a: "list_all (\<lambda>(k, e). plain k \<and> (case e of File (Some v) \<Rightarrow> True | _ \<Rightarrow> False))
             (AList.clearjunk (files d))
        \<longleftrightarrow> (\<forall>k e. map_of (files d) k = Some e \<longrightarrow> plain k \<and> (\<exists>v. e = File (Some v)))"
  proof
    assume L: "list_all (\<lambda>(k, e). plain k \<and> (case e of File (Some v) \<Rightarrow> True | _ \<Rightarrow> False))
                 (AList.clearjunk (files d))"
    show "\<forall>k e. map_of (files d) k = Some e \<longrightarrow> plain k \<and> (\<exists>v. e = File (Some v))"
    proof (intro allI impI)
      fix k e assume "map_of (files d) k = Some e"
      then have "(k, e) \<in> set (AList.clearjunk (files d))" by (simp add: clearjunk_mem)
      with L have "plain k \<and> (case e of File (Some v) \<Rightarrow> True | _ \<Rightarrow> False)"
        by (auto simp: list_all_iff)
      then show "plain k \<and> (\<exists>v. e = File (Some v))" by (auto split: fentry.splits option.splits)
    qed
  next
    assume R: "\<forall>k e. map_of (files d) k = Some e \<longrightarrow> plain k \<and> (\<exists>v. e = File (Some v))"
    show "list_all (\<lambda>(k, e). plain k \<and> (case e of File (Some v) \<Rightarrow> True | _ \<Rightarrow> False))
            (AList.clearjunk (files d))"
      unfolding list_all_iff
    proof (clarify)
      fix k e assume "(k, e) \<in> set (AList.clearjunk (files d))"
      then have "map_of (files d) k = Some e" by (simp add: clearjunk_mem)
      with R obtain v where "plain k" "e = File (Some v)" by blast
      then show "plain k \<and> (case e of File (Some v) \<Rightarrow> True | _ \<Rightarrow> False)" by simp
    qed
  qed
  have b: "list_all (\<lambda>(k, v). map_of (files d) k = Some (File (Some v))
                        \<or> (map_of (files d) k = None \<and> expired v now)) (AList.clearjunk (data (memory d)))
        \<longleftrightarrow> (\<forall>k v. map_of (data (memory d)) k = Some v \<longrightarrow>
         map_of (files d) k = Some (File (Some v)) \<or> (map_of (files d) k = None \<and> expired v now))"
    by (simp add: list_all_iff Ball_def clearjunk_mem)
  show ?thesis unfolding coherent_def a b by simp
qed

lemma coherent_mono: "coherent d now \<Longrightarrow> now \<le> t \<Longrightarrow> coherent d t"
  unfolding coherent_iff by (meson expired_mono)

lemma synced_coherent:
  assumes "synced d"
  shows "coherent d now"
  unfolding coherent_iff
proof (rule conjI)
  show "\<forall>k e. map_of (files d) k = Some e \<longrightarrow> plain k \<and> (\<exists>v. e = File (Some v))"
  proof (intro allI impI)
    fix k e assume f: "map_of (files d) k = Some e"
    with assms obtain v where "map_of (data (memory d)) k = Some v" "e = File (Some v)"
      by (auto simp: synced_def)
    with assms show "plain k \<and> (\<exists>v. e = File (Some v))" by (auto simp: synced_def)
  qed
  show "\<forall>k v. map_of (data (memory d)) k = Some v \<longrightarrow>
         map_of (files d) k = Some (File (Some v)) \<or> (map_of (files d) k = None \<and> expired v now)"
    using assms by (simp add: synced_def)
qed

lemma synced_persisted: "synced d \<Longrightarrow> persisted (files d) = map_of (data (memory d))"
  by (rule ext) (auto simp: synced_def persisted_def split: option.splits)

lemma in_sync_ok: "in_sync st \<Longrightarrow> ok st now"
  by (cases st) (simp_all add: synced_coherent)

lemma is_new_in_sync: "is_new st \<Longrightarrow> in_sync st \<and> view st = Map.empty"
  by (cases st) (auto simp: synced_def persisted_def)

subsection \<open>What an observer reads\<close>

lemma healthy_simps: "\<not> healthy c"
  by (simp add: healthy_def)

lemma Disk_Get_coherent:
  assumes "coherent d t" "plain k"
  shows "fst (DiskStorage_Get d k healthy t) = read_map (persisted (files d)) k t"
proof (cases "MemoryStorage_Has (memory d) k t")
  case True
  then obtain v where v: "map_of (data (memory d)) k = Some v" "\<not> expired v t"
    by (auto simp: Memory_Has_iff)
  with assms have "map_of (files d) k = Some (File (Some v))" by (auto simp: coherent_iff)
  with v Disk_Get_hit [OF v] show ?thesis by (simp add: read_map_def persisted_def)
next
  case False
  note at = plain_at(1) [OF assms(2)]
  show ?thesis
  proof (cases "map_of (files d) k")
    case None
    with False show ?thesis
      by (simp add: Disk_Get_miss at os_ReadFile_def read_map_def persisted_def healthy_simps)
  next
    case (Some e)
    with assms obtain v where "e = File (Some v)" by (auto simp: coherent_iff)
    with Some False show ?thesis
      by (simp add: Disk_Get_miss at os_ReadFile_def read_map_def persisted_def healthy_simps)
  qed
qed

lemma Disk_Keys_coherent:
  assumes "coherent d t"
  shows "set (fst (DiskStorage_Keys d healthy t)) = live_keys (persisted (files d)) t"
proof -
  let ?c = "\<lambda>k. map_of (data (memory (snd (DiskStorage_Keys d healthy t)))) k"
  have c: "?c k = (case loaded healthy t (files d) k of
                     Some v \<Rightarrow> Some v | None \<Rightarrow> map_of (data (memory d)) k)" for k
    by (simp add: Disk_Keys_state healthy_simps)
  have iff: "(\<exists>v. ?c k = Some v \<and> \<not> expired v t) \<longleftrightarrow> (\<exists>v. persisted (files d) k = Some v \<and> \<not> expired v t)" for k
  proof
    assume "\<exists>v. ?c k = Some v \<and> \<not> expired v t"
    then obtain v where v: "?c k = Some v" "\<not> expired v t" by blast
    show "\<exists>v. persisted (files d) k = Some v \<and> \<not> expired v t"
    proof (cases "loaded healthy t (files d) k")
      case None
      with v c [of k] have "map_of (data (memory d)) k = Some v" by simp
      with assms v(2) have "map_of (files d) k = Some (File (Some v))" by (auto simp: coherent_iff)
      with v(2) show ?thesis by (auto simp: persisted_def)
    next
      case (Some v')
      with v c [of k] have "v' = v" by simp
      with Some have "map_of (files d) k = Some (File (Some v))"
        by (auto simp: loaded_def split: option.splits fentry.splits if_splits)
      with v(2) show ?thesis by (auto simp: persisted_def)
    qed
  next
    assume "\<exists>v. persisted (files d) k = Some v \<and> \<not> expired v t"
    then obtain v where v: "persisted (files d) k = Some v" "\<not> expired v t" by blast
    then have "map_of (files d) k = Some (File (Some v))"
      by (auto simp: persisted_def split: option.splits fentry.splits)
    with v(2) have "loaded healthy t (files d) k = Some v" by (simp add: loaded_def healthy_simps)
    with v(2) c [of k] show "\<exists>v. ?c k = Some v \<and> \<not> expired v t" by simp
  qed
  have eq1: "set (fst (DiskStorage_Keys d healthy t)) = {k. \<exists>v. ?c k = Some v \<and> \<not> expired v t}"
    by (simp add: Disk_Keys_eq Memory_Keys_set)
  show ?thesis unfolding eq1 live_keys_def using iff by blast
qed

lemma Storage_Get_ok:
  assumes "ok st t" "fits st k"
  shows "fst (Storage_Get st k healthy t) = read_map (view st) k t"
proof (cases st)
  case (Volatile m)
  then show ?thesis by (simp add: Memory_Get_result read_map_def)
next
  case (Durable d)
  with assms show ?thesis by (simp add: Disk_Get_coherent)
qed

lemma Storage_Keys_ok:
  assumes "ok st t"
  shows "set (fst (Storage_Keys st healthy t)) = live_keys (view st) t"
proof (cases st)
  case (Volatile m)
  then show ?thesis by (simp add: Memory_Keys_set live_keys_def)
next
  case (Durable d)
  with assms show ?thesis by (simp add: Disk_Keys_coherent)
qed

lemma ok_mono: "ok st now \<Longrightarrow> now \<le> t \<Longrightarrow> ok st t"
  by (cases st) (simp_all add: coherent_mono)

subsection \<open>Mutations\<close>

lemma fits_kept:
  "fits (snd (Storage_Set st k v io)) = fits st"
  "fits (snd (Storage_Delete st k io)) = fits st"
  "fits (snd (Storage_Clear st io)) = fits st"
  "fits (snd (Storage_Keys st io now)) = fits st"
  by (cases st; rule ext; simp)+

lemma Storage_Set_in_sync:
  assumes "in_sync st" "fits st k"
  shows "fst (Storage_Set st k v healthy) = None
       \<and> in_sync (snd (Storage_Set st k v healthy))
       \<and> view (snd (Storage_Set st k v healthy)) = (view st)(k \<mapsto> v)"
proof (cases st)
  case (Volatile m)
  then show ?thesis by (simp add: MemoryStorage_Set_def update_conv')
next
  case (Durable d)
  with assms have s: "synced d" and p: "plain k" by simp_all
  then have nd: "\<And>b. map_of (files d) k \<noteq> Some (Dir b)"
    by (auto simp: synced_def split: option.splits)
  have w: "WriteFile_at healthy (files d) k v = (None, AList.update k (File (Some v)) (files d))"
    using nd
    by (auto simp: plain_at [OF p] os_WriteFile_def healthy_simps split: option.splits fentry.splits)
  have e: "DiskStorage_Set d k v healthy =
      (None, \<lparr>memory = (memory d)\<lparr>data := AList.update k v (data (memory d))\<rparr>,
              files = AList.update k (File (Some v)) (files d)\<rparr>)"
    by (simp add: DiskStorage_Set_def MemoryStorage_Set_def w)
  have s': "synced (snd (DiskStorage_Set d k v healthy))"
    using s p by (simp add: e synced_def update_conv')
  have "view (snd (Storage_Set st k v healthy)) = (view st)(k \<mapsto> v)"
    using synced_persisted [OF s'] synced_persisted [OF s]
    by (simp add: Durable) (simp add: e update_conv')
  with s' show ?thesis by (simp add: Durable e)
qed

lemma Storage_Delete_in_sync:
  assumes "in_sync st" "fits st k"
  shows "in_sync (snd (Storage_Delete st k healthy))
       \<and> view (snd (Storage_Delete st k healthy)) = (view st)(k := None)"
proof (cases st)
  case (Volatile m)
  then show ?thesis by (simp add: MemoryStorage_Delete_def delete_conv')
next
  case (Durable d)
  with assms have s: "synced d" and p: "plain k" by simp_all
  then have nd: "map_of (files d) k \<noteq> Some (Dir True)"
    by (auto simp: synced_def split: option.splits)
  from p have j: "Join k = Entry k" by (simp add: plain_def)
  note D = Disk_Delete_state(1) [of d k healthy] Disk_Delete_state(2) [OF j, of d healthy]
  have s': "synced (snd (DiskStorage_Delete d k healthy))"
    unfolding synced_def
  proof (intro conjI allI impI)
    fix k'
    show "map_of (files (snd (DiskStorage_Delete d k healthy))) k' =
          map_option (\<lambda>v. File (Some v)) (map_of (data (memory (snd (DiskStorage_Delete d k healthy)))) k')"
      using s nd by (simp add: D synced_def healthy_simps)
  next
    fix k' v assume "map_of (data (memory (snd (DiskStorage_Delete d k healthy)))) k' = Some v"
    with s show "plain k'" by (auto simp: D synced_def split: if_splits)
  qed
  have "view (snd (Storage_Delete st k healthy)) = (view st)(k := None)"
    using synced_persisted [OF s'] synced_persisted [OF s]
    by (simp add: Durable D)
  with s' show ?thesis by (simp add: Durable)
qed

text \<open>The loop of \<open>Clear\<close>: when it ends without an error, every regular file of the
  listing is gone and nothing else has changed.\<close>

lemma remove_files_state:
  assumes "distinct (map fst es)" "\<forall>(n, e) \<in> set es. map_of fs n = Some e"
    and "remove_files io es fs = (None, fs')"
  shows "map_of fs' k = (if \<exists>c. (k, File c) \<in> set es then None else map_of fs k)"
  using assms
proof (induction io es fs rule: remove_files.induct)
  case (1 io fs)
  then show ?case by simp
next
  case (2 io name b es fs)
  from "2.prems" have "\<not> (\<exists>c. (name, File c) \<in> set es)" by force
  with "2.prems" "2.IH" show ?case by auto
next
  case (3 io name c es fs)
  from "3.prems" have nf: "map_of fs name = Some (File c)" and nn: "name \<notin> fst ` set es" by auto
  from "3.prems"(3) have r: "os_Remove io fs name = (None, AList.delete name fs)"
    and rest: "remove_files io es (AList.delete name fs) = (None, fs')"
    using nf by (auto simp: os_Remove_def split: if_splits prod.splits option.splits)
  have cons: "\<forall>(n, e) \<in> set es. map_of (AList.delete name fs) n = Some e"
  proof (clarify)
    fix n e assume m: "(n, e) \<in> set es"
    with nn have "n \<noteq> name" by force
    with m "3.prems"(2) show "map_of (AList.delete name fs) n = Some e" by (auto simp: delete_conv')
  qed
  from "3.prems"(1) have dist: "distinct (map fst es)" by simp
  have IH: "map_of fs' k = (if \<exists>c. (k, File c) \<in> set es then None else map_of (AList.delete name fs) k)"
    using "3.IH" [OF r [symmetric] _ dist cons rest] by simp
  show ?case
  proof (cases "k = name")
    case True
    with nn have "\<not> (\<exists>c. (k, File c) \<in> set es)" by force
    with True IH show ?thesis by (simp add: delete_conv')
  next
    case False
    with IH show ?thesis by (auto simp: delete_conv')
  qed
qed

lemma remove_files_healthy:
  assumes "\<forall>(n, e) \<in> set es. map_of fs n = Some e" "distinct (map fst es)"
  shows "fst (remove_files healthy es fs) = None"
  using assms
proof (induction healthy es fs rule: remove_files.induct)
  case (1 fs)
  then show ?case by simp
next
  case (2 name b es fs)
  then show ?case by simp
next
  case (3 name c es fs)
  from "3.prems" have nf: "map_of fs name = Some (File c)" and nn: "name \<notin> fst ` set es" by auto
  have r: "os_Remove healthy fs name = (None, AList.delete name fs)"
    using nf by (simp add: os_Remove_def healthy_simps)
  have cons: "\<forall>(n, e) \<in> set es. map_of (AList.delete name fs) n = Some e"
  proof (clarify)
    fix n e assume m: "(n, e) \<in> set es"
    with nn have "n \<noteq> name" by force
    with m "3.prems"(1) show "map_of (AList.delete name fs) n = Some e" by (auto simp: delete_conv')
  qed
  from "3.prems" have dist: "distinct (map fst es)" by simp
  show ?case using "3.hyps" [OF r [symmetric] _ cons dist] by (simp add: r)
qed

lemma Disk_Clear_state:
  assumes "fst (DiskStorage_Clear d io) = None"
  shows "data (memory (snd (DiskStorage_Clear d io))) = []"
    and "map_of (files (snd (DiskStorage_Clear d io))) k =
           (case map_of (files d) k of Some (Dir b) \<Rightarrow> Some (Dir b) | _ \<Rightarrow> None)"
proof -
  from assms have rd: "\<not> io ReadDir"
    by (auto simp: DiskStorage_Clear_def os_ReadDir_def Let_def split: if_splits)
  obtain e fs' where rf: "remove_files io (AList.clearjunk (files d)) (files d) = (e, fs')"
    by (cases "remove_files io (AList.clearjunk (files d)) (files d)")
  have c: "DiskStorage_Clear d io = (e, \<lparr>memory = (memory d)\<lparr>data := []\<rparr>, files = fs'\<rparr>)"
    using rd by (simp add: DiskStorage_Clear_def os_ReadDir_def MemoryStorage_Clear_def rf)
  with assms have e: "e = None" by simp
  note st = remove_files_state [OF clearjunk_entries(1,2) rf [unfolded e], of k]
  show "data (memory (snd (DiskStorage_Clear d io))) = []" by (simp add: c)
  show "map_of (files (snd (DiskStorage_Clear d io))) k =
           (case map_of (files d) k of Some (Dir b) \<Rightarrow> Some (Dir b) | _ \<Rightarrow> None)"
    using st by (auto simp: c clearjunk_mem split: option.splits fentry.splits)
qed

lemma Disk_Clear_healthy: "fst (DiskStorage_Clear d healthy) = None"
proof -
  have "fst (remove_files healthy (AList.clearjunk (files d)) (files d)) = None"
    by (rule remove_files_healthy [OF clearjunk_entries(2,1)])
  then show ?thesis
    by (auto simp: DiskStorage_Clear_def os_ReadDir_def Let_def healthy_simps split: prod.splits)
qed

text \<open>\<open>Clear\<close> on a store whose directory holds regular files only.\<close>

lemma Storage_Clear_files:
  assumes "case st of Volatile m \<Rightarrow> True
           | Durable d \<Rightarrow> \<forall>k b. map_of (files d) k \<noteq> Some (Dir b)"
  shows "fst (Storage_Clear st healthy) = None
       \<and> in_sync (snd (Storage_Clear st healthy))
       \<and> view (snd (Storage_Clear st healthy)) = Map.empty"
proof (cases st)
  case (Volatile m)
  then show ?thesis by (simp add: MemoryStorage_Clear_def)
next
  case (Durable d)
  note c = Disk_Clear_state [OF Disk_Clear_healthy, of d]
  from assms Durable have nd: "\<And>k b. map_of (files d) k \<noteq> Some (Dir b)" by simp
  have f: "map_of (files (snd (DiskStorage_Clear d healthy))) k = None" for k
    using nd [of k] by (simp add: c split: option.splits fentry.splits)
  have s': "synced (snd (DiskStorage_Clear d healthy))"
    by (simp add: synced_def f c)
  have "view (snd (Storage_Clear st healthy)) = Map.empty"
    by (rule ext) (simp add: Durable persisted_def f)
  with s' show ?thesis by (simp add: Durable Disk_Clear_healthy)
qed

lemma in_sync_no_Dir:
  "in_sync st \<Longrightarrow> (case st of Volatile m \<Rightarrow> True
           | Durable d \<Rightarrow> \<forall>k b. map_of (files d) k \<noteq> Some (Dir b))"
  by (cases st) (auto simp: synced_def split: option.splits)

lemma ok_no_Dir:
  "ok st now \<Longrightarrow> (case st of Volatile m \<Rightarrow> True
           | Durable d \<Rightarrow> \<forall>k b. map_of (files d) k \<noteq> Some (Dir b))"
  by (cases st) (auto simp: coherent_iff)

subsection \<open>Apply\<close>

lemma log_fits_kept: "log_fits (snd (FSM_Apply st log io)) = log_fits st"
proof (rule ext)
  fix l
  have "fits (snd (FSM_Apply st log io)) = fits st"
    by (cases log) (simp_all add: FSM_Apply_def fits_kept)
  then show "log_fits (snd (FSM_Apply st log io)) l = log_fits st l"
    by (simp add: log_fits_def split: log_data.splits)
qed

lemma FSM_Apply_in_sync:
  assumes "in_sync st" "log_fits st log"
  shows "in_sync (snd (FSM_Apply st log healthy))
       \<and> view (snd (FSM_Apply st log healthy)) = apply_map log (view st)"
proof (cases log)
  case Malformed
  with assms show ?thesis by (simp add: FSM_Apply_def apply_map_def)
next
  case (Encoded cmd)
  note C = Storage_Clear_files [OF in_sync_no_Dir [OF assms(1)]]
  show ?thesis
  proof (cases "Op cmd = ''set'' \<or> Op cmd = ''delete''")
    case True
    with assms(2) Encoded have f: "fits st (Key cmd)" by (simp add: log_fits_def)
    from True Storage_Set_in_sync [OF assms(1) f, of "Val cmd"] Storage_Delete_in_sync [OF assms(1) f]
    show ?thesis by (auto simp: Encoded FSM_Apply_def apply_map_def)
  next
    case False
    with assms(1) C show ?thesis by (simp add: Encoded FSM_Apply_def apply_map_def)
  qed
qed

lemma Apply_all_in_sync:
  "in_sync st \<Longrightarrow> list_all (log_fits st) logs \<Longrightarrow>
     in_sync (Apply_all st logs healthy) \<and> view (Apply_all st logs healthy) = fold apply_map logs (view st)"
proof (induction logs arbitrary: st)
  case Nil
  then show ?case by simp
next
  case (Cons log logs)
  from Cons.prems have f: "log_fits st log" and r: "list_all (log_fits st) logs" by simp_all
  note A = FSM_Apply_in_sync [OF Cons.prems(1) f]
  from r have "list_all (log_fits (snd (FSM_Apply st log healthy))) logs"
    by (simp add: log_fits_kept)
  from Cons.IH [OF conjunct1 [OF A] this] A show ?case by simp
qed

lemma Apply_all_fits: "fits (Apply_all st logs io) = fits st"
proof (induction logs arbitrary: st)
  case Nil
  then show ?case by simp
next
  case (Cons log logs)
  have "fits (snd (FSM_Apply st log io)) = fits st"
    by (cases log) (simp_all add: FSM_Apply_def fits_kept)
  with Cons.IH [of "snd (FSM_Apply st log io)"] show ?case by simp
qed

text \<open>
  Claim C7 does not hold as stated when one of the two engines is durable and a key
  is not a plain file name. The durable backend stores the value of a key in the file
  at the cleaned path of the key, so that the keys \<open>./a\<close> and \<open>a\<close> share one file. After
  the one command \<open>set ./a\<close>, applied to a new volatile and to a new durable engine with
  no call of the operating system failing, \<open>Get\<close> of \<open>a\<close> returns \<open>ErrKeyNotFound\<close> on
  the volatile engine and the value on the durable one, and \<open>Keys\<close> reports \<open>./a\<close> on
  the volatile engine and both \<open>./a\<close> and \<open>a\<close> on the durable one.
\<close>

theorem Apply_backends_differ:
  "is_new (Volatile NewMemoryStorage) \<and> is_new (Durable \<lparr>memory = NewMemoryStorage, files = []\<rparr>)
 \<and> NewDiskStorage [] healthy 0 = Inr \<lparr>memory = NewMemoryStorage, files = []\<rparr>
 \<and> fst (Storage_Get (Apply_all (Volatile NewMemoryStorage)
        [Encoded \<lparr>Op = ''set'', Key = ''./a'', Val = \<lparr>Data = [1], Expiration = 0\<rparr>\<rparr>] healthy) ''a'' healthy 1)
      = Inl ErrKeyNotFound
 \<and> fst (Storage_Get (Apply_all (Durable \<lparr>memory = NewMemoryStorage, files = []\<rparr>)
        [Encoded \<lparr>Op = ''set'', Key = ''./a'', Val = \<lparr>Data = [1], Expiration = 0\<rparr>\<rparr>] healthy) ''a'' healthy 1)
      = Inr \<lparr>Data = [1], Expiration = 0\<rparr>
 \<and> set (fst (Storage_Keys (Apply_all (Volatile NewMemoryStorage)
        [Encoded \<lparr>Op = ''set'', Key = ''./a'', Val = \<lparr>Data = [1], Expiration = 0\<rparr>\<rparr>] healthy) healthy 1))
      = {''./a''}
 \<and> set (fst (Storage_Keys (Apply_all (Durable \<lparr>memory = NewMemoryStorage, files = []\<rparr>)
        [Encoded \<lparr>Op = ''set'', Key = ''./a'', Val = \<lparr>Data = [1], Expiration = 0\<rparr>\<rparr>] healthy) healthy 1))
      = {''./a'', ''a''}"
proof -
  let ?v = "\<lparr>Data = [1], Expiration = 0\<rparr>"
  let ?log = "[Encoded \<lparr>Op = ''set'', Key = ''./a'', Val = ?v\<rparr>]"
  have n: "NewDiskStorage [] healthy 0 = Inr \<lparr>memory = NewMemoryStorage, files = []\<rparr>"
    by (simp add: NewDiskStorage_def loadFromDisk_def os_ReadDir_def healthy_def)
  have j: "Join ''./a'' = Entry ''a''" "Join ''a'' = Entry ''a''" by (simp_all add: Join_def)
  have m: "Apply_all (Volatile NewMemoryStorage) ?log healthy = Volatile \<lparr>data = [(''./a'', ?v)]\<rparr>"
    by (simp add: FSM_Apply_def MemoryStorage_Set_def NewMemoryStorage_def)
  have d: "Apply_all (Durable \<lparr>memory = NewMemoryStorage, files = []\<rparr>) ?log healthy
      = Durable \<lparr>memory = \<lparr>data = [(''./a'', ?v)]\<rparr>, files = [(''a'', File (Some ?v))]\<rparr>"
    by (simp add: FSM_Apply_def DiskStorage_Set_def MemoryStorage_Set_def NewMemoryStorage_def
          WriteFile_at_def j os_WriteFile_def healthy_def)
  have g1: "fst (Storage_Get (Volatile \<lparr>data = [(''./a'', ?v)]\<rparr>) ''a'' healthy 1) = Inl ErrKeyNotFound"
    by (simp add: MemoryStorage_Get_def)
  have g2: "fst (Storage_Get (Durable \<lparr>memory = \<lparr>data = [(''./a'', ?v)]\<rparr>, files = [(''a'', File (Some ?v))]\<rparr>)
        ''a'' healthy 1) = Inr ?v"
    by (simp add: DiskStorage_Get_def MemoryStorage_Get_def ReadFile_at_def j os_ReadFile_def
          expired_def healthy_def)
  have k1: "set (fst (Storage_Keys (Volatile \<lparr>data = [(''./a'', ?v)]\<rparr>) healthy 1)) = {''./a''}"
    by (simp add: MemoryStorage_Keys_def expired_def)
  have k2: "set (fst (Storage_Keys (Durable \<lparr>memory = \<lparr>data = [(''./a'', ?v)]\<rparr>, files = [(''a'', File (Some ?v))]\<rparr>)
        healthy 1)) = {''./a'', ''a''}"
    by (auto simp: DiskStorage_Keys_def loadFromDisk_def load_entry_def os_ReadDir_def os_ReadFile_def
          MemoryStorage_Set_def MemoryStorage_Keys_def expired_def healthy_def)
  show ?thesis unfolding m d using n g1 g2 k1 k2 by (simp add: NewMemoryStorage_def)
qed

text \<open>
  Claim C7, as amended. Take two storage engines as their constructors return them, each of
  either backend, and apply the same sequence of log entries to both through
  \<open>FSM.Apply\<close>, no call of the operating system failing; where an engine is durable, let
  the keys of the \<open>set\<close> and \<open>delete\<close> commands be plain file names. Then at any time
  both report the same set of keys and, for every key (a plain file name where an
  engine is durable), the same result of \<open>Get\<close>: what the log makes of the empty map.
\<close>

theorem Apply_deterministic:
  assumes "is_new st1" "is_new st2"
    and "list_all (log_fits st1) logs" "list_all (log_fits st2) logs"
    and "fits st1 k" "fits st2 k"
  shows "set (fst (Storage_Keys (Apply_all st1 logs healthy) healthy t))
           = set (fst (Storage_Keys (Apply_all st2 logs healthy) healthy t))
       \<and> fst (Storage_Get (Apply_all st1 logs healthy) k healthy t)
           = fst (Storage_Get (Apply_all st2 logs healthy) k healthy t)
       \<and> set (fst (Storage_Keys (Apply_all st1 logs healthy) healthy t))
           = live_keys (fold apply_map logs Map.empty) t
       \<and> fst (Storage_Get (Apply_all st1 logs healthy) k healthy t)
           = read_map (fold apply_map logs Map.empty) k t"
proof -
  note n1 = is_new_in_sync [OF assms(1)] and n2 = is_new_in_sync [OF assms(2)]
  from n1 have a1: "in_sync (Apply_all st1 logs healthy)"
    "view (Apply_all st1 logs healthy) = fold apply_map logs Map.empty"
    using Apply_all_in_sync [OF _ assms(3)] by simp_all
  from n2 have a2: "in_sync (Apply_all st2 logs healthy)"
    "view (Apply_all st2 logs healthy) = fold apply_map logs Map.empty"
    using Apply_all_in_sync [OF _ assms(4)] by simp_all
  have f1: "fits (Apply_all st1 logs healthy) k" using assms(5) by (simp add: Apply_all_fits)
  have f2: "fits (Apply_all st2 logs healthy) k" using assms(6) by (simp add: Apply_all_fits)
  show ?thesis
    by (simp add: Storage_Keys_ok [OF in_sync_ok [OF a1(1)]] Storage_Keys_ok [OF in_sync_ok [OF a2(1)]]
          Storage_Get_ok [OF in_sync_ok [OF a1(1)] f1] Storage_Get_ok [OF in_sync_ok [OF a2(1)] f2]
          a1(2) a2(2))
qed

text \<open>A new volatile engine and a new durable engine, as \<open>NewDiskStorage\<close> returns it on
  an empty directory; a log that sets two keys, one of them with an expiration, and
  deletes one.\<close>

theorem Apply_deterministic_witness:
  "is_new (Volatile NewMemoryStorage) \<and> is_new (Durable \<lparr>memory = NewMemoryStorage, files = []\<rparr>)
 \<and> NewDiskStorage [] healthy 0 = Inr \<lparr>memory = NewMemoryStorage, files = []\<rparr>
 \<and> list_all (log_fits (Volatile NewMemoryStorage))
        [Encoded \<lparr>Op = ''set'', Key = ''a'', Val = \<lparr>Data = [1], Expiration = 0\<rparr>\<rparr>,
         Encoded \<lparr>Op = ''set'', Key = ''b'', Val = \<lparr>Data = [2], Expiration = 5\<rparr>\<rparr>,
         Encoded \<lparr>Op = ''delete'', Key = ''a'', Val = \<lparr>Data = [], Expiration = 0\<rparr>\<rparr>]
 \<and> list_all (log_fits (Durable \<lparr>memory = NewMemoryStorage, files = []\<rparr>))
        [Encoded \<lparr>Op = ''set'', Key = ''a'', Val = \<lparr>Data = [1], Expiration = 0\<rparr>\<rparr>,
         Encoded \<lparr>Op = ''set'', Key = ''b'', Val = \<lparr>Data = [2], Expiration = 5\<rparr>\<rparr>,
         Encoded \<lparr>Op = ''delete'', Key = ''a'', Val = \<lparr>Data = [], Expiration = 0\<rparr>\<rparr>]
 \<and> fits (Volatile NewMemoryStorage) ''b'' \<and> fits (Durable \<lparr>memory = NewMemoryStorage, files = []\<rparr>) ''b''
 \<and> set (fst (Storage_Keys (Apply_all (Volatile NewMemoryStorage)
        [Encoded \<lparr>Op = ''set'', Key = ''a'', Val = \<lparr>Data = [1], Expiration = 0\<rparr>\<rparr>,
         Encoded \<lparr>Op = ''set'', Key = ''b'', Val = \<lparr>Data = [2], Expiration = 5\<rparr>\<rparr>,
         Encoded \<lparr>Op = ''delete'', Key = ''a'', Val = \<lparr>Data = [], Expiration = 0\<rparr>\<rparr>] healthy) healthy 3))
   = set (fst (Storage_Keys (Apply_all (Durable \<lparr>memory = NewMemoryStorage, files = []\<rparr>)
        [Encoded \<lparr>Op = ''set'', Key = ''a'', Val = \<lparr>Data = [1], Expiration = 0\<rparr>\<rparr>,
         Encoded \<lparr>Op = ''set'', Key = ''b'', Val = \<lparr>Data = [2], Expiration = 5\<rparr>\<rparr>,
         Encoded \<lparr>Op = ''delete'', Key = ''a'', Val = \<lparr>Data = [], Expiration = 0\<rparr>\<rparr>] healthy) healthy 3))
 \<and> fst (Storage_Get (Apply_all (Volatile NewMemoryStorage)
        [Encoded \<lparr>Op = ''set'', Key = ''a'', Val = \<lparr>Data = [1], Expiration = 0\<rparr>\<rparr>,
         Encoded \<lparr>Op = ''set'', Key = ''b'', Val = \<lparr>Data = [2], Expiration = 5\<rparr>\<rparr>,
         Encoded \<lparr>Op = ''delete'', Key = ''a'', Val = \<lparr>Data = [], Expiration = 0\<rparr>\<rparr>] healthy) ''b'' healthy 3)
   = fst (Storage_Get (Apply_all (Durable \<lparr>memory = NewMemoryStorage, files = []\<rparr>)
        [Encoded \<lparr>Op = ''set'', Key = ''a'', Val = \<lparr>Data = [1], Expiration = 0\<rparr>\<rparr>,
         Encoded \<lparr>Op = ''set'', Key = ''b'', Val = \<lparr>Data = [2], Expiration = 5\<rparr>\<rparr>,
         Encoded \<lparr>Op = ''delete'', Key = ''a'', Val = \<lparr>Data = [], Expiration = 0\<rparr>\<rparr>] healthy) ''b'' healthy 3)
 \<and> fst (Storage_Get (Apply_all (Durable \<lparr>memory = NewMemoryStorage, files = []\<rparr>)
        [Encoded \<lparr>Op = ''set'', Key = ''a'', Val = \<lparr>Data = [1], Expiration = 0\<rparr>\<rparr>,
         Encoded \<lparr>Op = ''set'', Key = ''b'', Val = \<lparr>Data = [2], Expiration = 5\<rparr>\<rparr>,
         Encoded \<lparr>Op = ''delete'', Key = ''a'', Val = \<lparr>Data = [], Expiration = 0\<rparr>\<rparr>] healthy) ''b'' healthy 3)
   = Inr \<lparr>Data = [2], Expiration = 5\<rparr>"
proof -
  let ?logs = "[Encoded \<lparr>Op = ''set'', Key = ''a'', Val = \<lparr>Data = [1], Expiration = 0\<rparr>\<rparr>,
         Encoded \<lparr>Op = ''set'', Key = ''b'', Val = \<lparr>Data = [2], Expiration = 5\<rparr>\<rparr>,
         Encoded \<lparr>Op = ''delete'', Key = ''a'', Val = \<lparr>Data = [], Expiration = 0\<rparr>\<rparr>]"
  have h1: "is_new (Volatile NewMemoryStorage)" by (simp add: NewMemoryStorage_def)
  have h2: "is_new (Durable \<lparr>memory = NewMemoryStorage, files = []\<rparr>)" by (simp add: NewMemoryStorage_def)
  have h3: "list_all (log_fits (Volatile NewMemoryStorage)) ?logs" by (simp add: log_fits_def)
  have h4: "list_all (log_fits (Durable \<lparr>memory = NewMemoryStorage, files = []\<rparr>)) ?logs"
    by (simp add: log_fits_def plain_def Join_def)
  have h5: "fits (Volatile NewMemoryStorage) ''b''" by simp
  have h6: "fits (Durable \<lparr>memory = NewMemoryStorage, files = []\<rparr>) ''b''"
    by (simp add: plain_def Join_def)
  have n: "NewDiskStorage [] healthy 0 = Inr \<lparr>memory = NewMemoryStorage, files = []\<rparr>"
    by (simp add: NewDiskStorage_def loadFromDisk_def os_ReadDir_def healthy_def)
  have g: "fst (Storage_Get (Apply_all (Volatile NewMemoryStorage) ?logs healthy) ''b'' healthy 3)
      = Inr \<lparr>Data = [2], Expiration = 5\<rparr>"
    by (simp add: FSM_Apply_def NewMemoryStorage_def MemoryStorage_Set_def MemoryStorage_Delete_def
          MemoryStorage_Get_def expired_def)
  from Apply_deterministic [OF h1 h2 h3 h4 h5 h6, of 3] h1 h2 h3 h4 h5 h6 g n
  show ?thesis by simp
qed

subsection \<open>Restore\<close>

text \<open>
  Claim C10. \<open>Restore\<close> clears the storage engine before it decodes the snapshot. When
  the clearing succeeds and the decoding fails, \<open>Restore\<close> returns the decoding error and
  leaves the engine as \<open>Clear\<close> left it: the map of the volatile backend is empty; on
  the durable backend the cache is empty and no regular file is left in the directory;
  \<open>Keys\<close> returns no key. What the engine held before is lost.
\<close>

theorem Restore_decode_failure:
  assumes "fst (Storage_Clear st io) = None"
  shows "FSM_Restore st None io = (Some ErrDecode, snd (Storage_Clear st io))
       \<and> (case snd (FSM_Restore st None io) of
            Volatile m \<Rightarrow> data m = []
          | Durable d \<Rightarrow> data (memory d) = [] \<and> (\<forall>k c. map_of (files d) k \<noteq> Some (File c)))
       \<and> fst (Storage_Keys (snd (FSM_Restore st None io)) io' t) = []"
proof -
  have r: "FSM_Restore st None io = (Some ErrDecode, snd (Storage_Clear st io))"
    using assms by (auto simp: FSM_Restore_def split: prod.splits option.splits)
  show ?thesis
  proof (cases st)
    case (Volatile m)
    then show ?thesis
      unfolding r by (simp add: MemoryStorage_Clear_def MemoryStorage_Keys_def)
  next
    case (Durable d)
    let ?d = "snd (DiskStorage_Clear d io)"
    from assms Durable have ok: "fst (DiskStorage_Clear d io) = None" by simp
    note c = Disk_Clear_state [OF ok]
    have nf: "map_of (files ?d) k \<noteq> Some (File c')" for k c'
      by (simp add: c(2) split: option.splits fentry.splits)
    have "loaded io' t (files ?d) k = None" for k
      using nf [of k] by (auto simp: loaded_def split: option.splits fentry.splits)
    then have "map_of (data (memory (snd (DiskStorage_Keys ?d io' t)))) k = None" for k
      by (simp add: Disk_Keys_state c(1))
    then have "set (fst (DiskStorage_Keys ?d io' t)) = {}"
      using Memory_Keys_set [of "memory (snd (loadFromDisk ?d io' t))" t]
      by (simp add: Disk_Keys_eq)
    then have "fst (DiskStorage_Keys ?d io' t) = []" by simp
    with nf c(1) show ?thesis unfolding r by (simp add: Durable)
  qed
qed

text \<open>A volatile and a durable engine holding key \<open>a\<close>: after the failed \<open>Restore\<close> the
  key is gone.\<close>

theorem Restore_decode_failure_witness:
  "fst (Storage_Clear (Volatile \<lparr>data = [(''a'', \<lparr>Data = [1], Expiration = 0\<rparr>)]\<rparr>) healthy) = None
 \<and> FSM_Restore (Volatile \<lparr>data = [(''a'', \<lparr>Data = [1], Expiration = 0\<rparr>)]\<rparr>) None healthy
      = (Some ErrDecode, Volatile \<lparr>data = []\<rparr>)
 \<and> fst (Storage_Clear (Durable \<lparr>memory = \<lparr>data = [(''a'', \<lparr>Data = [1], Expiration = 0\<rparr>)]\<rparr>,
                               files = [(''a'', File (Some \<lparr>Data = [1], Expiration = 0\<rparr>))]\<rparr>) healthy) = None
 \<and> FSM_Restore (Durable \<lparr>memory = \<lparr>data = [(''a'', \<lparr>Data = [1], Expiration = 0\<rparr>)]\<rparr>,
                         files = [(''a'', File (Some \<lparr>Data = [1], Expiration = 0\<rparr>))]\<rparr>) None healthy
      = (Some ErrDecode, Durable \<lparr>memory = \<lparr>data = []\<rparr>, files = []\<rparr>)"
proof -
  let ?v = "\<lparr>Data = [1], Expiration = 0\<rparr>"
  have c1: "Storage_Clear (Volatile \<lparr>data = [(''a'', ?v)]\<rparr>) healthy = (None, Volatile \<lparr>data = []\<rparr>)"
    by (simp add: MemoryStorage_Clear_def)
  have c2: "Storage_Clear (Durable \<lparr>memory = \<lparr>data = [(''a'', ?v)]\<rparr>, files = [(''a'', File (Some ?v))]\<rparr>) healthy
      = (None, Durable \<lparr>memory = \<lparr>data = []\<rparr>, files = []\<rparr>)"
    by (simp add: DiskStorage_Clear_def MemoryStorage_Clear_def os_ReadDir_def os_Remove_def healthy_def)
  have h1: "fst (Storage_Clear (Volatile \<lparr>data = [(''a'', ?v)]\<rparr>) healthy) = None"
    unfolding c1 by simp
  have h2: "fst (Storage_Clear (Durable \<lparr>memory = \<lparr>data = [(''a'', ?v)]\<rparr>,
                               files = [(''a'', File (Some ?v))]\<rparr>) healthy) = None"
    unfolding c2 by simp
  from Restore_decode_failure [OF h1, of healthy 1] Restore_decode_failure [OF h2, of healthy 1] h1 h2
  show ?thesis unfolding c1 c2 by simp
qed

lemma fold_restore_fits: "fits (fold (restore_key io) al st) = fits st"
  by (induction al arbitrary: st) (simp_all add: restore_key_def fits_kept)

lemma fold_restore_key:
  assumes "in_sync st" "distinct (map fst al)" "\<forall>(k, v) \<in> set al. fits st k"
  shows "in_sync (fold (restore_key healthy) al st)
       \<and> (\<forall>k. view (fold (restore_key healthy) al st) k =
                (case map_of al k of Some v \<Rightarrow> Some v | None \<Rightarrow> view st k))"
  using assms
proof (induction al arbitrary: st)
  case Nil
  then show ?case by simp
next
  case (Cons x al)
  obtain k0 v0 where x: "x = (k0, v0)" by (cases x)
  let ?st = "restore_key healthy x st"
  from Cons.prems(3) x have f0: "fits st k0" by simp
  note S = Storage_Set_in_sync [OF Cons.prems(1) f0, of v0]
  from S have sy: "in_sync ?st" and vw: "view (restore_key healthy (k0, v0) st) = (view st)(k0 \<mapsto> v0)"
    by (simp_all add: restore_key_def x)
  from Cons.prems(2) x have dist: "distinct (map fst al)" and nn: "map_of al k0 = None"
    by (auto simp: map_of_eq_None_iff)
  from Cons.prems(3) have ft: "\<forall>(k, v) \<in> set al. fits ?st k"
    by (simp add: restore_key_def fits_kept)
  note IH = Cons.IH [OF sy dist ft]
  show ?case
  proof (intro conjI allI)
    show "in_sync (fold (restore_key healthy) (x # al) st)" using IH by simp
    fix k
    show "view (fold (restore_key healthy) (x # al) st) k =
            (case map_of (x # al) k of Some v \<Rightarrow> Some v | None \<Rightarrow> view st k)"
      using IH nn by (cases "k = k0") (simp_all add: vw x split: option.splits)
  qed
qed

lemma FSM_Restore_in_sync:
  assumes "in_sync st" "\<And>k v. map_of snapshot k = Some v \<Longrightarrow> fits st k"
  shows "fst (FSM_Restore st (Some snapshot) healthy) = None
       \<and> in_sync (snd (FSM_Restore st (Some snapshot) healthy))
       \<and> view (snd (FSM_Restore st (Some snapshot) healthy)) = map_of snapshot
       \<and> fits (snd (FSM_Restore st (Some snapshot) healthy)) = fits st"
proof -
  note C = Storage_Clear_files [OF in_sync_no_Dir [OF assms(1)]]
  obtain st1 where c: "Storage_Clear st healthy = (None, st1)"
    using C by (cases "Storage_Clear st healthy") simp
  with C have s1: "in_sync st1" "view st1 = Map.empty" by simp_all
  from c have f1: "fits st1 = fits st" using fits_kept(3) [of st healthy] by simp
  have ft: "\<forall>(k, v) \<in> set (AList.clearjunk snapshot). fits st1 k"
    using assms(2) by (auto simp: f1 clearjunk_mem)
  note F = fold_restore_key [OF s1(1) _ ft]
  have r: "FSM_Restore st (Some snapshot) healthy =
      (None, fold (restore_key healthy) (AList.clearjunk snapshot) st1)"
    by (simp add: FSM_Restore_def c)
  have "view (fold (restore_key healthy) (AList.clearjunk snapshot) st1) = map_of snapshot"
    by (rule ext) (use F s1(2) in \<open>simp add: map_of_clearjunk split: option.splits\<close>)
  with F show ?thesis by (simp add: r fold_restore_fits f1)
qed

subsection \<open>Snapshot\<close>

lemma fold_snapshot_key:
  assumes "\<forall>k \<in> set ks. \<exists>v. f k = Some v \<and> Storage_Get st k io now = (Inr v, st)"
  shows "fold (snapshot_key io now) ks (acc, st) = (acc', st') \<Longrightarrow>
           st' = st \<and> (\<forall>k. map_of acc' k = (if k \<in> set ks then f k else map_of acc k))"
  using assms
proof (induction ks arbitrary: acc)
  case Nil
  then show ?case by simp
next
  case (Cons k0 ks)
  from Cons.prems(2) obtain v where v: "f k0 = Some v" "Storage_Get st k0 io now = (Inr v, st)"
    by auto
  have step: "snapshot_key io now k0 (acc, st) = (AList.update k0 v acc, st)"
    by (simp add: snapshot_key_def v)
  from Cons.prems(1) have "fold (snapshot_key io now) ks (AList.update k0 v acc, st) = (acc', st')"
    by (simp add: step)
  from Cons.IH [OF this] Cons.prems(2)
  have IH: "st' = st" "\<And>k. map_of acc' k = (if k \<in> set ks then f k else map_of (AList.update k0 v acc) k)"
    by simp_all
  show ?case
  proof (intro conjI allI)
    show "st' = st" by (rule IH)
    fix k
    show "map_of acc' k = (if k \<in> set (k0 # ks) then f k else map_of acc k)"
      using IH(2) [of k] v(1) Cons.prems(2) by (auto simp: update_conv')
  qed
qed

lemma Storage_Get_after_Keys:
  assumes "ok st now" "k \<in> set (fst (Storage_Keys st healthy now))"
  shows "\<exists>v. view st k = Some v \<and>
           Storage_Get (snd (Storage_Keys st healthy now)) k healthy now
             = (Inr v, snd (Storage_Keys st healthy now))"
proof (cases st)
  case (Volatile m)
  with assms(2) obtain v where "map_of (data m) k = Some v" "\<not> expired v now"
    by (auto simp: Memory_Keys_set)
  with Volatile show ?thesis by (simp add: MemoryStorage_Get_def)
next
  case (Durable d)
  let ?d = "snd (DiskStorage_Keys d healthy now)"
  from assms(1) Durable have co: "coherent d now" by simp
  from assms(2) Durable have "k \<in> set (MemoryStorage_Keys (memory ?d) now)"
    by (simp add: Disk_Keys_eq)
  then obtain v where v: "map_of (data (memory ?d)) k = Some v" "\<not> expired v now"
    by (auto simp: Memory_Keys_set)
  from assms(2) Durable have "k \<in> live_keys (persisted (files d)) now"
    using Disk_Keys_coherent [OF co] by simp
  then obtain v' where v': "persisted (files d) k = Some v'" "\<not> expired v' now"
    by (auto simp: live_keys_def)
  then have f: "map_of (files d) k = Some (File (Some v'))"
    by (auto simp: persisted_def split: option.splits fentry.splits)
  with v'(2) have "loaded healthy now (files d) k = Some v'" by (simp add: loaded_def healthy_simps)
  with v(1) have "v' = v" by (simp add: Disk_Keys_state healthy_simps)
  with v' Disk_Get_hit [OF v] Durable show ?thesis by simp
qed

lemma Keys_no_Dir:
  assumes "ok st now"
  shows "case snd (Storage_Keys st healthy now) of Volatile m \<Rightarrow> True
         | Durable d \<Rightarrow> \<forall>k b. map_of (files d) k \<noteq> Some (Dir b)"
proof (cases st)
  case (Volatile m)
  then show ?thesis by simp
next
  case (Durable d)
  with assms have "\<And>k b. map_of (files d) k \<noteq> Some (Dir b)" by (auto simp: coherent_iff)
  with Durable show ?thesis by (simp add: Disk_Keys_state healthy_simps)
qed

lemma FSM_Snapshot_ok:
  assumes "ok st now" "FSM_Snapshot st healthy now = (snapshot, st1)"
  shows "st1 = snd (Storage_Keys st healthy now)"
    and "map_of snapshot k = (if k \<in> live_keys (view st) now then view st k else None)"
proof -
  obtain ks st0 where K: "Storage_Keys st healthy now = (ks, st0)"
    by (cases "Storage_Keys st healthy now")
  from assms(2) have f: "fold (snapshot_key healthy now) ks ([], st0) = (snapshot, st1)"
    by (simp add: FSM_Snapshot_def K)
  have g: "\<forall>k \<in> set ks. \<exists>v. view st k = Some v \<and> Storage_Get st0 k healthy now = (Inr v, st0)"
    using Storage_Get_after_Keys [OF assms(1)] K by simp
  note r = fold_snapshot_key [OF g f]
  have ks: "set ks = live_keys (view st) now"
    using Storage_Keys_ok [OF assms(1)] K by simp
  show "st1 = snd (Storage_Keys st healthy now)" using r K by simp
  show "map_of snapshot k = (if k \<in> live_keys (view st) now then view st k else None)"
    using r ks by simp
qed

subsection \<open>The snapshot round trip\<close>

lemma live_part_keys:
  assumes "now \<le> t" "\<And>k. S k = (if k \<in> live_keys V now then V k else None)"
  shows "live_keys S t = live_keys V t"
  using assms by (auto simp: live_keys_def dest: expired_mono)

lemma live_part_read:
  assumes "\<And>k. S k = (if k \<in> live_keys V now then V k else None)"
    and "read_map V k now \<noteq> Inl ErrKeyExpired"
  shows "read_map S k t = read_map V k t"
  using assms(2) unfolding read_map_def assms(1) live_keys_def
  by (auto split: option.splits if_splits)

lemma ok_view_fits:
  assumes "ok st now" "view st k = Some v"
  shows "fits st k"
proof (cases st)
  case (Volatile m)
  then show ?thesis by simp
next
  case (Durable d)
  with assms have "coherent d now" "map_of (files d) k \<noteq> None"
    by (auto simp: persisted_def split: option.splits)
  with Durable show ?thesis by (auto simp: coherent_iff)
qed

text \<open>
  Claim C2 does not hold for every storage state: on the durable backend \<open>Snapshot\<close>
  reads the keys through \<open>Keys\<close>, which reloads the files into the cache, so that the
  round trip restores what the directory holds and not what the cache answered before.
  Take a durable store that holds value 1 for key \<open>a\<close>, and a \<open>Set\<close> of \<open>a\<close> to value 2
  whose write fails: the cache holds 2, the file 1. \<open>Get\<close> returns 2; after \<open>Snapshot\<close>,
  \<open>Clear\<close> and \<open>Restore\<close>, no call of the operating system failing, \<open>Get\<close> returns 1.
\<close>

theorem Round_trip_restores_stale_file:
  "snd (DiskStorage_Set \<lparr>memory = \<lparr>data = [(''a'', \<lparr>Data = [1], Expiration = 0\<rparr>)]\<rparr>,
                         files = [(''a'', File (Some \<lparr>Data = [1], Expiration = 0\<rparr>))]\<rparr>
          ''a'' \<lparr>Data = [2], Expiration = 0\<rparr> (\<lambda>c. True))
     = \<lparr>memory = \<lparr>data = [(''a'', \<lparr>Data = [2], Expiration = 0\<rparr>)]\<rparr>,
        files = [(''a'', File (Some \<lparr>Data = [1], Expiration = 0\<rparr>))]\<rparr>
 \<and> fst (Storage_Get (Durable \<lparr>memory = \<lparr>data = [(''a'', \<lparr>Data = [2], Expiration = 0\<rparr>)]\<rparr>,
                               files = [(''a'', File (Some \<lparr>Data = [1], Expiration = 0\<rparr>))]\<rparr>) ''a'' healthy 1)
     = Inr \<lparr>Data = [2], Expiration = 0\<rparr>
 \<and> fst (snapshot_clear_restore (Durable \<lparr>memory = \<lparr>data = [(''a'', \<lparr>Data = [2], Expiration = 0\<rparr>)]\<rparr>,
                               files = [(''a'', File (Some \<lparr>Data = [1], Expiration = 0\<rparr>))]\<rparr>) healthy 1) = None
 \<and> fst (Storage_Get (snd (snapshot_clear_restore
          (Durable \<lparr>memory = \<lparr>data = [(''a'', \<lparr>Data = [2], Expiration = 0\<rparr>)]\<rparr>,
                    files = [(''a'', File (Some \<lparr>Data = [1], Expiration = 0\<rparr>))]\<rparr>) healthy 1)) ''a'' healthy 1)
     = Inr \<lparr>Data = [1], Expiration = 0\<rparr>"
proof -
  let ?v1 = "\<lparr>Data = [1], Expiration = 0\<rparr>" and ?v2 = "\<lparr>Data = [2], Expiration = 0\<rparr>"
  let ?st = "Durable \<lparr>memory = \<lparr>data = [(''a'', ?v2)]\<rparr>, files = [(''a'', File (Some ?v1))]\<rparr>"
  have j: "Join ''a'' = Entry ''a''" by (simp add: Join_def)
  have s: "snd (DiskStorage_Set \<lparr>memory = \<lparr>data = [(''a'', ?v1)]\<rparr>, files = [(''a'', File (Some ?v1))]\<rparr>
          ''a'' ?v2 (\<lambda>c. True))
     = \<lparr>memory = \<lparr>data = [(''a'', ?v2)]\<rparr>, files = [(''a'', File (Some ?v1))]\<rparr>"
    by (simp add: DiskStorage_Set_def MemoryStorage_Set_def WriteFile_at_def j os_WriteFile_def)
  have g: "fst (Storage_Get ?st ''a'' healthy 1) = Inr ?v2"
    by (simp add: DiskStorage_Get_def MemoryStorage_Get_def expired_def)
  have k: "DiskStorage_Keys \<lparr>memory = \<lparr>data = [(''a'', ?v2)]\<rparr>, files = [(''a'', File (Some ?v1))]\<rparr> healthy 1
      = ([''a''], \<lparr>memory = \<lparr>data = [(''a'', ?v1)]\<rparr>, files = [(''a'', File (Some ?v1))]\<rparr>)"
    by (simp add: DiskStorage_Keys_def loadFromDisk_def load_entry_def os_ReadDir_def os_ReadFile_def
          MemoryStorage_Set_def MemoryStorage_Keys_def expired_def healthy_def)
  have sn: "FSM_Snapshot ?st healthy 1
      = ([(''a'', ?v1)], Durable \<lparr>memory = \<lparr>data = [(''a'', ?v1)]\<rparr>, files = [(''a'', File (Some ?v1))]\<rparr>)"
    by (simp add: FSM_Snapshot_def k snapshot_key_def DiskStorage_Get_def MemoryStorage_Get_def expired_def)
  have c: "DiskStorage_Clear \<lparr>memory = \<lparr>data = [(''a'', ?v1)]\<rparr>, files = [(''a'', File (Some ?v1))]\<rparr> healthy
      = (None, \<lparr>memory = \<lparr>data = []\<rparr>, files = []\<rparr>)"
    by (simp add: DiskStorage_Clear_def MemoryStorage_Clear_def os_ReadDir_def os_Remove_def healthy_def)
  have r: "FSM_Restore (Durable \<lparr>memory = \<lparr>data = []\<rparr>, files = []\<rparr>) (Some [(''a'', ?v1)]) healthy
      = (None, Durable \<lparr>memory = \<lparr>data = [(''a'', ?v1)]\<rparr>, files = [(''a'', File (Some ?v1))]\<rparr>)"
    by (simp add: FSM_Restore_def DiskStorage_Clear_def MemoryStorage_Clear_def os_ReadDir_def
          restore_key_def DiskStorage_Set_def MemoryStorage_Set_def WriteFile_at_def j os_WriteFile_def
          healthy_def)
  have rt: "snapshot_clear_restore ?st healthy 1
      = (None, Durable \<lparr>memory = \<lparr>data = [(''a'', ?v1)]\<rparr>, files = [(''a'', File (Some ?v1))]\<rparr>)"
    by (simp add: snapshot_clear_restore_def sn c r)
  have g': "fst (Storage_Get (Durable \<lparr>memory = \<lparr>data = [(''a'', ?v1)]\<rparr>, files = [(''a'', File (Some ?v1))]\<rparr>)
        ''a'' healthy 1) = Inr ?v1"
    by (simp add: DiskStorage_Get_def MemoryStorage_Get_def expired_def)
  show ?thesis unfolding rt using s g g' by simp
qed

text \<open>
  Claim C2, as amended. Take a storage engine: a volatile one in any state, or a durable one
  that is coherent at the time of the snapshot (its directory holds nothing but files
  that decode to a value, and every entry of its cache is the value of the file of its
  key, or has expired and has no file), and let no call of the operating system fail.
  After \<open>Snapshot\<close>, \<open>Clear\<close> and \<open>Restore\<close> of that snapshot, \<open>Restore\<close> has returned no
  error, and at the time of the snapshot and at any later time \<open>Keys\<close> reports the same
  set of keys as on the engine before the snapshot, and \<open>Get\<close> returns the same result as
  before for every key (a plain file name on the durable backend) that \<open>Get\<close> did not
  report as expired at the time of the snapshot.
\<close>

theorem Snapshot_round_trip:
  assumes "ok st now" "now \<le> t"
  shows "fst (snapshot_clear_restore st healthy now) = None
       \<and> set (fst (Storage_Keys (snd (snapshot_clear_restore st healthy now)) healthy t))
           = set (fst (Storage_Keys st healthy t))
       \<and> (fits st k \<and> fst (Storage_Get st k healthy now) \<noteq> Inl ErrKeyExpired \<longrightarrow>
            fst (Storage_Get (snd (snapshot_clear_restore st healthy now)) k healthy t)
              = fst (Storage_Get st k healthy t))"
proof -
  obtain snapshot st1 where sn: "FSM_Snapshot st healthy now = (snapshot, st1)"
    by (cases "FSM_Snapshot st healthy now")
  note S = FSM_Snapshot_ok [OF assms(1) sn]
  have nd: "case st1 of Volatile m \<Rightarrow> True
            | Durable d \<Rightarrow> \<forall>k b. map_of (files d) k \<noteq> Some (Dir b)"
    unfolding S(1) by (rule Keys_no_Dir [OF assms(1)])
  obtain e st2 where cl: "Storage_Clear st1 healthy = (e, st2)"
    by (cases "Storage_Clear st1 healthy")
  with Storage_Clear_files [OF nd] have s2: "in_sync st2" by simp
  from cl have f2: "fits st2 = fits st"
    using fits_kept(3) [of st1 healthy] by (simp add: S(1) fits_kept)
  let ?st3 = "snd (FSM_Restore st2 (Some snapshot) healthy)"
  have rt: "snapshot_clear_restore st healthy now = FSM_Restore st2 (Some snapshot) healthy"
    by (simp add: snapshot_clear_restore_def sn cl)
  have sm: "\<And>k. map_of snapshot k = (if k \<in> live_keys (view st) now then view st k else None)"
    by (rule S(2))
  have sf: "fits st2 k'" if "map_of snapshot k' = Some v" for k' v
  proof -
    from that sm [of k'] have "view st k' = Some v" by (auto split: if_splits)
    from ok_view_fits [OF assms(1) this] show ?thesis by (simp add: f2)
  qed
  note R = FSM_Restore_in_sync [OF s2 sf]
  from R have ok3: "ok ?st3 t" by (simp add: in_sync_ok)
  from R have f3: "fits ?st3 = fits st" by (simp add: f2)
  from assms have okt: "ok st t" by (rule ok_mono)
  have keys: "set (fst (Storage_Keys ?st3 healthy t)) = set (fst (Storage_Keys st healthy t))"
    using live_part_keys [OF assms(2) sm] R
    by (simp add: Storage_Keys_ok [OF ok3] Storage_Keys_ok [OF okt])
  have get: "fst (Storage_Get ?st3 k healthy t) = fst (Storage_Get st k healthy t)"
    if ft: "fits st k" and ne: "fst (Storage_Get st k healthy now) \<noteq> Inl ErrKeyExpired"
  proof -
    from ft have ft3: "fits ?st3 k" by (simp add: f3)
    from ne have "read_map (view st) k now \<noteq> Inl ErrKeyExpired"
      by (simp add: Storage_Get_ok [OF assms(1) ft])
    from live_part_read [OF sm this, of t] R show ?thesis
      by (simp add: Storage_Get_ok [OF ok3 ft3] Storage_Get_ok [OF okt ft])
  qed
  from R keys get show ?thesis by (simp add: rt)
qed

text \<open>A durable engine holding key \<open>a\<close> without expiration and key \<open>b\<close> expiring at
  time 5, snapshot at time 3 and observed at time 10, and a volatile engine with the
  same contents.\<close>

theorem Snapshot_round_trip_witness:
  "ok (Durable \<lparr>memory = \<lparr>data = [(''a'', \<lparr>Data = [1], Expiration = 0\<rparr>), (''b'', \<lparr>Data = [2], Expiration = 5\<rparr>)]\<rparr>,
                files = [(''a'', File (Some \<lparr>Data = [1], Expiration = 0\<rparr>)),
                         (''b'', File (Some \<lparr>Data = [2], Expiration = 5\<rparr>))]\<rparr>) 3
 \<and> (3::int) \<le> 10
 \<and> fits (Durable \<lparr>memory = \<lparr>data = [(''a'', \<lparr>Data = [1], Expiration = 0\<rparr>), (''b'', \<lparr>Data = [2], Expiration = 5\<rparr>)]\<rparr>,
                files = [(''a'', File (Some \<lparr>Data = [1], Expiration = 0\<rparr>)),
                         (''b'', File (Some \<lparr>Data = [2], Expiration = 5\<rparr>))]\<rparr>) ''b''
 \<and> fst (Storage_Get (Durable \<lparr>memory = \<lparr>data = [(''a'', \<lparr>Data = [1], Expiration = 0\<rparr>), (''b'', \<lparr>Data = [2], Expiration = 5\<rparr>)]\<rparr>,
                files = [(''a'', File (Some \<lparr>Data = [1], Expiration = 0\<rparr>)),
                         (''b'', File (Some \<lparr>Data = [2], Expiration = 5\<rparr>))]\<rparr>) ''b'' healthy 3) \<noteq> Inl ErrKeyExpired
 \<and> fst (Storage_Get (snd (snapshot_clear_restore
          (Durable \<lparr>memory = \<lparr>data = [(''a'', \<lparr>Data = [1], Expiration = 0\<rparr>), (''b'', \<lparr>Data = [2], Expiration = 5\<rparr>)]\<rparr>,
                files = [(''a'', File (Some \<lparr>Data = [1], Expiration = 0\<rparr>)),
                         (''b'', File (Some \<lparr>Data = [2], Expiration = 5\<rparr>))]\<rparr>) healthy 3)) ''b'' healthy 10)
     = fst (Storage_Get (Durable \<lparr>memory = \<lparr>data = [(''a'', \<lparr>Data = [1], Expiration = 0\<rparr>), (''b'', \<lparr>Data = [2], Expiration = 5\<rparr>)]\<rparr>,
                files = [(''a'', File (Some \<lparr>Data = [1], Expiration = 0\<rparr>)),
                         (''b'', File (Some \<lparr>Data = [2], Expiration = 5\<rparr>))]\<rparr>) ''b'' healthy 10)
 \<and> ok (Volatile \<lparr>data = [(''a'', \<lparr>Data = [1], Expiration = 0\<rparr>), (''b'', \<lparr>Data = [2], Expiration = 5\<rparr>)]\<rparr>) 3
 \<and> fits (Volatile \<lparr>data = [(''a'', \<lparr>Data = [1], Expiration = 0\<rparr>), (''b'', \<lparr>Data = [2], Expiration = 5\<rparr>)]\<rparr>) ''a''
 \<and> fst (Storage_Get (Volatile \<lparr>data = [(''a'', \<lparr>Data = [1], Expiration = 0\<rparr>), (''b'', \<lparr>Data = [2], Expiration = 5\<rparr>)]\<rparr>)
          ''a'' healthy 3) \<noteq> Inl ErrKeyExpired
 \<and> fst (Storage_Get (snd (snapshot_clear_restore
          (Volatile \<lparr>data = [(''a'', \<lparr>Data = [1], Expiration = 0\<rparr>), (''b'', \<lparr>Data = [2], Expiration = 5\<rparr>)]\<rparr>) healthy 3))
          ''a'' healthy 10)
     = Inr \<lparr>Data = [1], Expiration = 0\<rparr>"
proof -
  let ?va = "\<lparr>Data = [1], Expiration = 0\<rparr>" and ?vb = "\<lparr>Data = [2], Expiration = 5\<rparr>"
  let ?d = "Durable \<lparr>memory = \<lparr>data = [(''a'', ?va), (''b'', ?vb)]\<rparr>,
                files = [(''a'', File (Some ?va)), (''b'', File (Some ?vb))]\<rparr>"
  let ?m = "Volatile \<lparr>data = [(''a'', ?va), (''b'', ?vb)]\<rparr>"
  have h1: "ok ?d 3" by (simp add: coherent_def plain_def Join_def)
  have h2: "(3::int) \<le> 10" by simp
  have h3: "fst (Storage_Get ?d ''b'' healthy 3) \<noteq> Inl ErrKeyExpired"
    by (simp add: DiskStorage_Get_def MemoryStorage_Get_def expired_def)
  have h4: "ok ?m 3" by simp
  have h5: "fst (Storage_Get ?m ''a'' healthy 3) \<noteq> Inl ErrKeyExpired"
    by (simp add: MemoryStorage_Get_def expired_def)
  have h6: "fits ?d ''b''" by (simp add: plain_def Join_def)
  have h7: "fits ?m ''a''" by simp
  have g: "fst (Storage_Get ?m ''a'' healthy 10) = Inr ?va"
    by (simp add: MemoryStorage_Get_def expired_def)
  from Snapshot_round_trip [OF h1 h2, of "''b''"] Snapshot_round_trip [OF h4 h2, of "''a''"]
       h1 h2 h3 h4 h5 h6 h7 g
  show ?thesis by simp
qed

section \<open>The consensus node\<close>

text \<open>
  Claim C1. On a node whose role is not \<open>Leader\<close>, \<open>Set\<close> and \<open>Delete\<close> return
  \<open>ErrNotLeader\<close> whatever the key, the value and the consensus engine, and the node,
  its storage engine included, is as before.
\<close>

theorem non_leader_rejects:
  assumes "state n \<noteq> Leader"
  shows "Node_Set raftApply n key val = (Some ErrNotLeader, n)
       \<and> Node_Delete raftApply n key = (Some ErrNotLeader, n)
       \<and> store (snd (Node_Set raftApply n key val)) = store n
       \<and> store (snd (Node_Delete raftApply n key)) = store n"
  using assms by (simp add: Node_Set_def Node_Delete_def)

text \<open>A follower that holds one key, in a cluster of one node: the calls are rejected;
  the same calls on a leader do change the store.\<close>

theorem non_leader_rejects_witness:
  "state \<lparr>ID = ''n1'', state = Follower, store = Volatile \<lparr>data = [(''a'', \<lparr>Data = [1], Expiration = 0\<rparr>)]\<rparr>\<rparr> \<noteq> Leader
 \<and> Node_Set (single_node_apply healthy)
      \<lparr>ID = ''n1'', state = Follower, store = Volatile \<lparr>data = [(''a'', \<lparr>Data = [1], Expiration = 0\<rparr>)]\<rparr>\<rparr>
      ''a'' \<lparr>Data = [2], Expiration = 0\<rparr>
    = (Some ErrNotLeader,
       \<lparr>ID = ''n1'', state = Follower, store = Volatile \<lparr>data = [(''a'', \<lparr>Data = [1], Expiration = 0\<rparr>)]\<rparr>\<rparr>)
 \<and> Node_Delete (single_node_apply healthy)
      \<lparr>ID = ''n1'', state = Follower, store = Volatile \<lparr>data = [(''a'', \<lparr>Data = [1], Expiration = 0\<rparr>)]\<rparr>\<rparr> ''a''
    = (Some ErrNotLeader,
       \<lparr>ID = ''n1'', state = Follower, store = Volatile \<lparr>data = [(''a'', \<lparr>Data = [1], Expiration = 0\<rparr>)]\<rparr>\<rparr>)
 \<and> Node_Delete (single_node_apply healthy)
      \<lparr>ID = ''n1'', state = Leader, store = Volatile \<lparr>data = [(''a'', \<lparr>Data = [1], Expiration = 0\<rparr>)]\<rparr>\<rparr> ''a''
    = (None, \<lparr>ID = ''n1'', state = Leader, store = Volatile \<lparr>data = []\<rparr>\<rparr>)"
proof -
  let ?n = "\<lparr>ID = ''n1'', state = Follower, store = Volatile \<lparr>data = [(''a'', \<lparr>Data = [1], Expiration = 0\<rparr>)]\<rparr>\<rparr>"
  have h: "state ?n \<noteq> Leader" by simp
  have l: "Node_Delete (single_node_apply healthy)
      \<lparr>ID = ''n1'', state = Leader, store = Volatile \<lparr>data = [(''a'', \<lparr>Data = [1], Expiration = 0\<rparr>)]\<rparr>\<rparr> ''a''
    = (None, \<lparr>ID = ''n1'', state = Leader, store = Volatile \<lparr>data = []\<rparr>\<rparr>)"
    by (simp add: Node_Delete_def single_node_apply_def FSM_Apply_def MemoryStorage_Delete_def)
  from non_leader_rejects [OF h, of "single_node_apply healthy" "''a''" "\<lparr>Data = [2], Expiration = 0\<rparr>"] h l
  show ?thesis by simp
qed

section \<open>Properties of the hash ring\<close>

subsection \<open>The binary search\<close>


lemma Search_loop_le: "i \<le> j \<Longrightarrow> i \<le> Search_loop f i j \<and> Search_loop f i j \<le> j"
proof (induction f i j rule: Search_loop.induct)
  case (1 f i j)
  show ?case
  proof (cases "i < j")
    case False
    with "1.prems" have "i = j" by simp
    then show ?thesis by (simp add: Search_loop.simps [of f j j])
  next
    case True
    let ?h = "(i + j) div 2"
    from True have h: "i \<le> ?h" "?h < j" by simp_all
    show ?thesis
    proof (cases "f ?h")
      case True
      with "1.IH"(2) [OF \<open>i < j\<close> refl] h
      have "i \<le> Search_loop f i ?h \<and> Search_loop f i ?h \<le> ?h" by simp
      with True \<open>i < j\<close> h show ?thesis
        by (simp add: Search_loop.simps [of f i j] Let_def)
    next
      case False
      with "1.IH"(1) [OF \<open>i < j\<close> refl] h
      have "?h + 1 \<le> Search_loop f (?h + 1) j \<and> Search_loop f (?h + 1) j \<le> j" by simp
      with False \<open>i < j\<close> h show ?thesis
        by (simp add: Search_loop.simps [of f i j] Let_def)
    qed
  qed
qed

lemma Search_le: "Search n f \<le> n"
  using Search_loop_le [of 0 n f] by (simp add: Search_def)

lemma locate_less: "keys m \<noteq> [] \<Longrightarrow> locate m key < length (keys m)"
  using Search_le [of "length (keys m)" "\<lambda>i. uint (hash m key) \<le> keys m ! i"]
  by (auto simp: locate_def Let_def)

lemma Search_loop_spec:
  assumes "i \<le> j" "j \<le> n"
    and "\<forall>a b. a \<le> b \<and> b < n \<and> f a \<longrightarrow> f b"
    and "\<forall>k<i. \<not> f k" "\<forall>k. j \<le> k \<and> k < n \<longrightarrow> f k"
  shows "(\<forall>k < Search_loop f i j. \<not> f k) \<and> (\<forall>k. Search_loop f i j \<le> k \<and> k < n \<longrightarrow> f k)"
  using assms
proof (induction f i j rule: Search_loop.induct)
  case (1 f i j)
  show ?case
  proof (cases "i < j")
    case False
    with "1.prems" have "i = j" by simp
    with "1.prems" show ?thesis by (simp add: Search_loop.simps [of f j j])
  next
    case True
    let ?h = "(i + j) div 2"
    from True have h: "i \<le> ?h" "?h < j" by simp_all
    show ?thesis
    proof (cases "f ?h")
      case True
      have up: "\<forall>k. ?h \<le> k \<and> k < n \<longrightarrow> f k"
        using True "1.prems"(3) by blast
      have "(\<forall>k < Search_loop f i ?h. \<not> f k) \<and> (\<forall>k. Search_loop f i ?h \<le> k \<and> k < n \<longrightarrow> f k)"
        using "1.IH"(2) [OF \<open>i < j\<close> refl _ h(1) _ "1.prems"(3) "1.prems"(4) up] True h "1.prems"(2)
        by simp
      with True \<open>i < j\<close> show ?thesis
        by (simp add: Search_loop.simps [of f i j] Let_def)
    next
      case False
      have low: "\<forall>k < ?h + 1. \<not> f k"
      proof (intro allI impI)
        fix k assume "k < ?h + 1"
        then have "k \<le> ?h" by simp
        moreover have "?h < n" using h "1.prems"(2) by simp
        ultimately show "\<not> f k" using False "1.prems"(3) by blast
      qed
      have "(\<forall>k < Search_loop f (?h + 1) j. \<not> f k) \<and> (\<forall>k. Search_loop f (?h + 1) j \<le> k \<and> k < n \<longrightarrow> f k)"
        using "1.IH"(1) [OF \<open>i < j\<close> refl _ _ "1.prems"(2) "1.prems"(3) low "1.prems"(5)] False h
        by simp
      with False \<open>i < j\<close> show ?thesis
        by (simp add: Search_loop.simps [of f i j] Let_def)
    qed
  qed
qed

text \<open>On a sorted list the search finds the boundary between positions below and
  positions at or above the hash.\<close>

lemma Search_sorted:
  assumes "sorted ks"
  shows "(\<forall>k < Search (length ks) (\<lambda>i. h \<le> ks ! i). ks ! k < h)
       \<and> (\<forall>k. Search (length ks) (\<lambda>i. h \<le> ks ! i) \<le> k \<and> k < length ks \<longrightarrow> h \<le> ks ! k)"
proof -
  have mono: "\<forall>a b. a \<le> b \<and> b < length ks \<and> h \<le> ks ! a \<longrightarrow> h \<le> ks ! b"
    using assms by (auto dest: sorted_nth_mono [of ks] intro: order_trans)
  have top: "\<forall>k. length ks \<le> k \<and> k < length ks \<longrightarrow> h \<le> ks ! k"
    by (simp add: not_less [symmetric])
  have bot: "\<forall>k<0::nat. \<not> h \<le> ks ! k" by simp
  show ?thesis
    using Search_loop_spec [of 0 "length ks" "length ks" "\<lambda>i. h \<le> ks ! i", OF _ _ mono bot top]
    by (simp add: Search_def not_le)
qed

lemma locate_spec:
  assumes "sorted (keys m)" "keys m \<noteq> []"
  shows "keys m ! locate m key = spec_position (keys m) (uint (hash m key))"
proof -
  let ?ks = "keys m" and ?h = "uint (hash m key)"
  let ?r = "Search (length ?ks) (\<lambda>i. ?h \<le> ?ks ! i)"
  note S = Search_sorted [OF assms(1), of ?h]
  have rle: "?r \<le> length ?ks" by (rule Search_le)
  show ?thesis
  proof (cases "?r = length ?ks")
    case True
    with S have "\<forall>k < length ?ks. ?ks ! k < ?h" by simp
    then have "\<not> (\<exists>p \<in> set ?ks. ?h \<le> p)" by (fastforce simp: in_set_conv_nth)
    with True show ?thesis by (simp add: locate_def spec_position_def)
  next
    case False
    with rle have r: "?r < length ?ks" by simp
    with S have ge: "?h \<le> ?ks ! ?r" by simp
    have ex: "\<exists>p \<in> set ?ks. ?h \<le> p" using r ge by (metis nth_mem)
    have "Min {p \<in> set ?ks. ?h \<le> p} = ?ks ! ?r"
    proof (rule Min_eqI)
      show "finite {p \<in> set ?ks. ?h \<le> p}" by simp
      show "?ks ! ?r \<in> {p \<in> set ?ks. ?h \<le> p}" using r ge by simp
      fix y assume "y \<in> {p \<in> set ?ks. ?h \<le> p}"
      then obtain j where j: "j < length ?ks" "?ks ! j = y" "?h \<le> y"
        by (auto simp: in_set_conv_nth)
      with S have "\<not> j < ?r" by auto
      then have "?r \<le> j" by simp
      with assms(1) j show "?ks ! ?r \<le> y" using sorted_nth_mono by blast
    qed
    with ex False show ?thesis by (simp add: locate_def spec_position_def Let_def)
  qed
qed

lemma sorted_first_Min: "sorted ks \<Longrightarrow> ks \<noteq> [] \<Longrightarrow> ks ! 0 = Min (set ks)"
  by (cases ks) (auto intro!: Min_eqI [symmetric])

lemma spec_position_mem:
  assumes "sorted ks" "ks \<noteq> []"
  shows "spec_position ks h \<in> set ks"
proof (cases "\<exists>p \<in> set ks. h \<le> p")
  case True
  then have "{p \<in> set ks. h \<le> p} \<noteq> {}" by auto
  then have "Min {p \<in> set ks. h \<le> p} \<in> {p \<in> set ks. h \<le> p}"
    by (intro Min_in) simp_all
  with True show ?thesis by (simp add: spec_position_def)
next
  case False
  with assms show ?thesis by (simp add: spec_position_def)
qed

lemma spec_position_subset:
  assumes "sorted ks" "sorted ks'" "set ks' \<subseteq> set ks" "spec_position ks h \<in> set ks'"
  shows "spec_position ks' h = spec_position ks h"
proof -
  let ?p = "spec_position ks h"
  from assms have ne: "ks' \<noteq> []" "ks \<noteq> []" by auto
  show ?thesis
  proof (cases "\<exists>q \<in> set ks. h \<le> q")
    case True
    then have p: "?p = Min {q \<in> set ks. h \<le> q}" by (simp add: spec_position_def)
    from True have "{q \<in> set ks. h \<le> q} \<noteq> {}" by auto
    then have "Min {q \<in> set ks. h \<le> q} \<in> {q \<in> set ks. h \<le> q}"
      by (intro Min_in) simp_all
    with p have hp: "h \<le> ?p" by simp
    have "Min {q \<in> set ks'. h \<le> q} = ?p"
    proof (rule Min_eqI)
      show "finite {q \<in> set ks'. h \<le> q}" by simp
      show "?p \<in> {q \<in> set ks'. h \<le> q}" using assms(4) hp by simp
      fix y assume "y \<in> {q \<in> set ks'. h \<le> q}"
      with assms(3) have "y \<in> {q \<in> set ks. h \<le> q}" by auto
      then show "?p \<le> y" unfolding p by (intro Min_le) simp_all
    qed
    moreover have "\<exists>q \<in> set ks'. h \<le> q" using assms(4) hp by blast
    ultimately show ?thesis by (simp add: spec_position_def)
  next
    case False
    with assms(3) have F': "\<not> (\<exists>q \<in> set ks'. h \<le> q)" by blast
    from False have p: "?p = Min (set ks)"
      using sorted_first_Min [OF assms(1) ne(2)] by (simp add: spec_position_def)
    have "Min (set ks') = ?p"
    proof (rule Min_eqI)
      show "finite (set ks')" by simp
      show "?p \<in> set ks'" by (rule assms(4))
      fix y assume "y \<in> set ks'"
      with assms(3) have "y \<in> set ks" by auto
      then show "?p \<le> y" unfolding p by (intro Min_le) simp_all
    qed
    with F' show ?thesis
      using sorted_first_Min [OF assms(2) ne(1)] by (simp add: spec_position_def)
  qed
qed

text \<open>What \<open>Get\<close> computes on a sorted, non-empty ring.\<close>

lemma Get_sorted:
  assumes "sorted (keys m)" "keys m \<noteq> []"
  shows "Get m key =
    (case hashMap m (spec_position (keys m) (uint (hash m key))) of None \<Rightarrow> '''' | Some node \<Rightarrow> node)"
  using assms by (simp add: Get_def locate_spec)

text \<open>Two rings with the same hash, the same positions and the same owners of these
  positions answer every lookup alike.\<close>

lemma Get_cong:
  assumes "hash m' = hash m" "keys m' = keys m" "\<forall>p \<in> set (keys m). hashMap m' p = hashMap m p"
  shows "Get m' key = Get m key"
proof (cases "keys m = []")
  case True
  with assms show ?thesis by (simp add: Get_def)
next
  case False
  have "locate m' key = locate m key" using assms by (simp add: locate_def)
  moreover have "keys m ! locate m key \<in> set (keys m)"
    using locate_less [OF False] by simp
  ultimately show ?thesis using assms False by (simp add: Get_def)
qed

subsection \<open>Add\<close>

lemma fold_Add_replica:
  "hash (fold (Add_replica key) is m) = hash m
 \<and> replicas (fold (Add_replica key) is m) = replicas m
 \<and> keys (fold (Add_replica key) is m) = keys m @ map (\<lambda>i. vhash m i key) is
 \<and> (\<forall>p. hashMap (fold (Add_replica key) is m) p =
         (if p \<in> (\<lambda>i. vhash m i key) ` set is then Some key else hashMap m p))"
proof (induction "is" arbitrary: m)
  case Nil
  show ?case by simp
next
  case (Cons i "is")
  have v: "\<And>j. vhash (Add_replica key i m) j key = vhash m j key"
    by (simp add: vhash_def Add_replica_def Let_def)
  show ?case
    using Cons.IH [of "Add_replica key i m"]
    by (auto simp: v) (auto simp: Add_replica_def Let_def)
qed

lemma Add_key_frame:
  "hash (Add_key key m) = hash m" "replicas (Add_key key m) = replicas m"
  "keys (Add_key key m) = keys m @ positions m key"
  "hashMap (Add_key key m) p = (if p \<in> set (positions m key) then Some key else hashMap m p)"
  using fold_Add_replica [of key "[0..<nat (replicas m)]" m]
  by (simp_all add: Add_key_def positions_def)

lemma Add_frame:
  "hash (Add m ks) = hash m" "replicas (Add m ks) = replicas m"
proof -
  have "hash (fold Add_key ks m) = hash m \<and> replicas (fold Add_key ks m) = replicas m"
    by (induction ks arbitrary: m) (simp_all add: Add_key_frame)
  then show "hash (Add m ks) = hash m" "replicas (Add m ks) = replicas m"
    by (simp_all add: Add_def Let_def)
qed

lemma sorted_Add: "sorted (keys (Add m ks))"
  by (simp add: Add_def Let_def)

lemma owned_Add_key: "owned m \<Longrightarrow> key \<noteq> '''' \<Longrightarrow> owned (Add_key key m)"
  by (auto simp: owned_def Add_key_frame)

lemma owned_fold_Add_key: "owned m \<Longrightarrow> '''' \<notin> set ks \<Longrightarrow> owned (fold Add_key ks m)"
  by (induction ks arbitrary: m) (auto simp: owned_Add_key)

lemma owned_Add: "owned m \<Longrightarrow> '''' \<notin> set ks \<Longrightarrow> owned (Add m ks)"
  using owned_fold_Add_key [of m ks] by (simp add: Add_def Let_def owned_def)

subsection \<open>Remove\<close>

lemma index_of_None: "index_of ks h = None \<longleftrightarrow> h \<notin> set ks"
  by (induction ks) auto

lemma index_of_Some: "index_of ks h = Some i \<Longrightarrow> take i ks @ drop (i + 1) ks = remove1 h ks"
  by (induction ks arbitrary: i) (auto split: if_splits)

lemma Remove_replica_frame:
  "hash (Remove_replica key i m) = hash m" "replicas (Remove_replica key i m) = replicas m"
  "keys (Remove_replica key i m) = remove1 (vhash m i key) (keys m)"
  "hashMap (Remove_replica key i m) =
     (if vhash m i key \<in> set (keys m) then (hashMap m)(vhash m i key := None) else hashMap m)"
proof -
  show "hash (Remove_replica key i m) = hash m" "replicas (Remove_replica key i m) = replicas m"
    by (simp_all add: Remove_replica_def Let_def split: option.splits)
  show "keys (Remove_replica key i m) = remove1 (vhash m i key) (keys m)"
  proof (cases "index_of (keys m) (vhash m i key)")
    case None
    then have "vhash m i key \<notin> set (keys m)" by (simp add: index_of_None)
    with None show ?thesis by (simp add: Remove_replica_def remove1_idem)
  next
    case (Some idx)
    with index_of_Some [OF Some] show ?thesis by (simp add: Remove_replica_def Let_def)
  qed
  show "hashMap (Remove_replica key i m) =
     (if vhash m i key \<in> set (keys m) then (hashMap m)(vhash m i key := None) else hashMap m)"
  proof (cases "index_of (keys m) (vhash m i key)")
    case None
    then have "vhash m i key \<notin> set (keys m)" by (simp add: index_of_None)
    with None show ?thesis by (simp add: Remove_replica_def)
  next
    case (Some idx)
    then have "vhash m i key \<in> set (keys m)" using index_of_None [of "keys m" "vhash m i key"] by auto
    with Some show ?thesis by (simp add: Remove_replica_def)
  qed
qed

lemma fold_Remove_replica:
  "hash (fold (Remove_replica key) is m) = hash m
 \<and> replicas (fold (Remove_replica key) is m) = replicas m
 \<and> keys (fold (Remove_replica key) is m) = fold remove1 (map (\<lambda>i. vhash m i key) is) (keys m)
 \<and> (\<forall>p. p \<notin> (\<lambda>i. vhash m i key) ` set is \<longrightarrow>
         hashMap (fold (Remove_replica key) is m) p = hashMap m p)"
proof (induction "is" arbitrary: m)
  case Nil
  show ?case by simp
next
  case (Cons i "is")
  have v: "\<And>j. vhash (Remove_replica key i m) j key = vhash m j key"
    by (simp add: vhash_def Remove_replica_frame)
  show ?case
    using Cons.IH [of "Remove_replica key i m"]
    by (auto simp: v Remove_replica_frame)
qed

lemma Remove_frame:
  "hash (Remove m key) = hash m" "replicas (Remove m key) = replicas m"
  "keys (Remove m key) = fold remove1 (positions m key) (keys m)"
  "p \<notin> set (positions m key) \<Longrightarrow> hashMap (Remove m key) p = hashMap m p"
  using fold_Remove_replica [of key "[0..<nat (replicas m)]" m]
  by (simp_all add: Remove_def positions_def)

lemma fold_remove1_props:
  "set (fold remove1 hs xs) \<subseteq> set xs"
  "sorted xs \<Longrightarrow> sorted (fold remove1 hs xs)"
  "distinct xs \<Longrightarrow> distinct (fold remove1 hs xs)"
  "p \<in> set xs \<Longrightarrow> p \<notin> set hs \<Longrightarrow> p \<in> set (fold remove1 hs xs)"
  "distinct xs \<Longrightarrow> set (fold remove1 hs xs) = set xs - set hs"
proof -
  show "set (fold remove1 hs xs) \<subseteq> set xs"
  proof (induction hs arbitrary: xs)
    case Nil
    show ?case by simp
  next
    case (Cons a hs)
    have "set (fold remove1 hs (remove1 a xs)) \<subseteq> set (remove1 a xs)" by (rule Cons.IH)
    also have "\<dots> \<subseteq> set xs" by (rule set_remove1_subset)
    finally show ?case by simp
  qed
  show "sorted xs \<Longrightarrow> sorted (fold remove1 hs xs)"
    by (induction hs arbitrary: xs) (auto simp: sorted_remove1)
  show "distinct xs \<Longrightarrow> distinct (fold remove1 hs xs)"
    by (induction hs arbitrary: xs) auto
  show "p \<in> set xs \<Longrightarrow> p \<notin> set hs \<Longrightarrow> p \<in> set (fold remove1 hs xs)"
    by (induction hs arbitrary: xs) auto
  show "distinct xs \<Longrightarrow> set (fold remove1 hs xs) = set xs - set hs"
    by (induction hs arbitrary: xs) auto
qed

lemma sorted_Remove: "sorted (keys m) \<Longrightarrow> sorted (keys (Remove m key))"
  by (simp add: Remove_frame fold_remove1_props)

lemma distinct_Remove: "distinct (keys m) \<Longrightarrow> distinct (keys (Remove m key))"
  by (simp add: Remove_frame fold_remove1_props)

lemma owned_Remove:
  assumes "owned m" "distinct (keys m)"
  shows "owned (Remove m key)"
  unfolding owned_def
proof
  fix p assume "p \<in> set (keys (Remove m key))"
  then have "p \<in> set (keys m) - set (positions m key)"
    using fold_remove1_props(5) [OF assms(2), of "positions m key"] by (simp add: Remove_frame)
  then have "p \<in> set (keys m)" "hashMap (Remove m key) p = hashMap m p"
    by (simp_all add: Remove_frame)
  with assms(1) show "\<exists>n. hashMap (Remove m key) p = Some n \<and> n \<noteq> ''''"
    by (auto simp: owned_def)
qed


lemma positions_cong: "hash m' = hash m \<Longrightarrow> replicas m' = replicas m \<Longrightarrow> positions m' n = positions m n"
  by (simp add: positions_def vhash_def)

lemma Add_single:
  "keys (Add m [n]) = sort (keys m @ positions m n)"
  "hashMap (Add m [n]) p = (if p \<in> set (positions m n) then Some n else hashMap m p)"
  by (simp_all add: Add_def Let_def Add_key_frame)

lemma mset_fold_remove1:
  "mset hs \<subseteq># mset xs \<Longrightarrow> mset (fold remove1 hs xs) = mset xs - mset hs"
proof (induction hs arbitrary: xs)
  case Nil
  show ?case by simp
next
  case (Cons a hs)
  from Cons.prems have a: "a \<in># mset xs" and sub: "mset hs \<subseteq># mset xs - {#a#}"
    by (auto simp: insert_subset_eq_iff)
  have "mset (fold remove1 hs (remove1 a xs)) = mset (remove1 a xs) - mset hs"
    using sub by (intro Cons.IH) simp
  then show ?case by (simp add: multiset_eq_iff)
qed

lemma keys_Remove_Add:
  assumes "sorted (keys m)"
  shows "keys (Remove (Add m [n]) n) = keys m"
proof -
  let ?hs = "positions m n"
  have pos: "positions (Add m [n]) n = ?hs"
    by (rule positions_cong) (simp_all add: Add_frame)
  have k: "keys (Remove (Add m [n]) n) = fold remove1 ?hs (sort (keys m @ ?hs))"
    by (simp add: Remove_frame pos Add_single)
  have "mset (fold remove1 ?hs (sort (keys m @ ?hs))) = mset (sort (keys m @ ?hs)) - mset ?hs"
    by (rule mset_fold_remove1) simp
  then have ms: "mset (fold remove1 ?hs (sort (keys m @ ?hs))) = mset (keys m)" by simp
  have so: "sorted (fold remove1 ?hs (sort (keys m @ ?hs)))"
    by (simp add: fold_remove1_props)
  have "sort (keys m) = fold remove1 ?hs (sort (keys m @ ?hs))"
    using ms so by (rule properties_for_sort)
  with assms k show ?thesis by (simp add: sorted_sort_id)
qed

text \<open>Adding a node whose positions are all new and removing it again changes no answer.\<close>

lemma Get_Remove_Add:
  assumes "sorted (keys m)" "set (positions m n) \<inter> set (keys m) = {}"
  shows "Get (Remove (Add m [n]) n) key = Get m key"
proof (rule Get_cong)
  show "hash (Remove (Add m [n]) n) = hash m" by (simp add: Remove_frame Add_frame)
  show "keys (Remove (Add m [n]) n) = keys m" by (rule keys_Remove_Add [OF assms(1)])
  have pos: "positions (Add m [n]) n = positions m n"
    by (rule positions_cong) (simp_all add: Add_frame)
  show "\<forall>p \<in> set (keys m). hashMap (Remove (Add m [n]) n) p = hashMap m p"
  proof
    fix p assume "p \<in> set (keys m)"
    with assms(2) have "p \<notin> set (positions m n)" by auto
    then show "hashMap (Remove (Add m [n]) n) p = hashMap m p"
      by (simp add: Remove_frame pos Add_single)
  qed
qed

text \<open>Removing a node leaves the answer for a key alone unless the key's position is
  one of the node's.\<close>

lemma Get_Remove_other:
  assumes "sorted (keys m)" "keys m \<noteq> []" "keys m ! locate m key \<notin> set (positions m n)"
  shows "Get (Remove m n) key = Get m key"
proof -
  let ?h = "uint (hash m key)"
  let ?p = "spec_position (keys m) ?h"
  have p: "keys m ! locate m key = ?p" by (rule locate_spec [OF assms(1,2)])
  have pin: "?p \<in> set (keys m)" by (rule spec_position_mem [OF assms(1,2)])
  have pin': "?p \<in> set (keys (Remove m n))"
    using pin assms(3) p by (simp add: Remove_frame fold_remove1_props)
  then have ne: "keys (Remove m n) \<noteq> []" by auto
  have so: "sorted (keys (Remove m n))" by (rule sorted_Remove [OF assms(1)])
  have sub: "set (keys (Remove m n)) \<subseteq> set (keys m)"
    by (simp add: Remove_frame fold_remove1_props)
  have "spec_position (keys (Remove m n)) ?h = ?p"
    by (rule spec_position_subset [OF assms(1) so sub pin'])
  moreover have "hashMap (Remove m n) ?p = hashMap m ?p"
    using assms(3) p by (simp add: Remove_frame)
  ultimately show ?thesis
    using Get_sorted [OF so ne, of key] Get_sorted [OF assms(1,2), of key]
    by (simp add: Remove_frame)
qed

lemma Remove_empty: "keys m = [] \<Longrightarrow> keys (Remove m n) = []"
  using fold_remove1_props(1) [of "positions m n" "[]"] by (simp add: Remove_frame)

subsection \<open>Histories\<close>

lemma sorted_apply_op: "sorted (keys m) \<Longrightarrow> sorted (keys (apply_op m x))"
  by (cases x) (simp_all add: sorted_Add sorted_Remove)

lemma sorted_run': "sorted (keys m) \<Longrightarrow> sorted (keys (run m ops))"
  by (induction ops arbitrary: m) (simp_all add: sorted_apply_op)

lemma sorted_run: "sorted (keys (run (New n fn) ops))"
  by (rule sorted_run') (simp add: New_def)

lemma owned_run:
  "owned m \<Longrightarrow> distinct (keys m) \<Longrightarrow> collision_free m ops \<Longrightarrow> owned (run m ops)"
proof (induction ops arbitrary: m)
  case Nil
  then show ?case by simp
next
  case (Cons x ops)
  have "owned (apply_op m x)"
  proof (cases x)
    case (OpAdd ks)
    with Cons.prems show ?thesis by (simp add: owned_Add)
  next
    case (OpRemove k)
    with Cons.prems show ?thesis by (simp add: owned_Remove)
  qed
  with Cons show ?case by simp
qed

lemma Get_owned:
  assumes "owned m" "keys m \<noteq> []"
  shows "Get m key \<noteq> '''' \<and> on_ring m (Get m key)"
proof -
  have "keys m ! locate m key \<in> set (keys m)" using locate_less [OF assms(2)] by simp
  with assms(1) obtain n where "hashMap m (keys m ! locate m key) = Some n" "n \<noteq> ''''"
    and "keys m ! locate m key \<in> set (keys m)"
    by (auto simp: owned_def)
  with assms(2) show ?thesis by (auto simp: Get_def on_ring_def)
qed

subsection \<open>The ring claims\<close>

text \<open>
  Claim C4, as amended. Take any history of \<open>Add\<close> and \<open>Remove\<close> calls on a new ring
  that is free of collisions (after each call no position occurs twice on the ring, and no
  node is named by the empty string) and leaves the ring non-empty. Then for every key
  \<open>Get\<close> returns a node that owns a position of the ring, and never the empty string.
  \<open>Get\<close> is a function of the ring and the key and does not modify the ring, so repeated
  calls under the same membership return the same node.
\<close>

theorem Get_real_node:
  assumes "collision_free (New n fn) ops" "keys (run (New n fn) ops) \<noteq> []"
  shows "Get (run (New n fn) ops) key \<noteq> '''' \<and> on_ring (run (New n fn) ops) (Get (run (New n fn) ops) key)"
proof -
  have "owned (run (New n fn) ops)"
    using assms(1) by (intro owned_run) (simp_all add: owned_def New_def)
  then show ?thesis using assms(2) by (rule Get_owned)
qed

text \<open>The hypotheses of the theorem hold on the history of the repository's ring test.\<close>

theorem Get_real_node_witness:
  "collision_free (New 3 test_hash) [OpAdd [''6'', ''4'', ''2''], OpAdd [''8''], OpRemove ''8'']
 \<and> keys (run (New 3 test_hash) [OpAdd [''6'', ''4'', ''2''], OpAdd [''8''], OpRemove ''8'']) \<noteq> []
 \<and> Get (run (New 3 test_hash) [OpAdd [''6'', ''4'', ''2''], OpAdd [''8''], OpRemove ''8'']) ''27'' \<noteq> ''''
 \<and> on_ring (run (New 3 test_hash) [OpAdd [''6'', ''4'', ''2''], OpAdd [''8''], OpRemove ''8''])
       (Get (run (New 3 test_hash) [OpAdd [''6'', ''4'', ''2''], OpAdd [''8''], OpRemove ''8'']) ''27'')"
proof -
  have h1: "collision_free (New 3 test_hash) [OpAdd [''6'', ''4'', ''2''], OpAdd [''8''], OpRemove ''8'']"
    by code_simp
  have h2: "keys (run (New 3 test_hash) [OpAdd [''6'', ''4'', ''2''], OpAdd [''8''], OpRemove ''8'']) \<noteq> []"
    by code_simp
  from Get_real_node [OF h1 h2, of "''27''"] h1 h2 show ?thesis by blast
qed

text \<open>
  Claim C4 as stated fails. With the test's hash, node \<open>"2"\<close> has positions 2, 12, 22 and
  node \<open>"12"\<close> has positions 12, 112, 212. After \<open>Add("2")\<close>, \<open>Add("12")\<close>,
  \<open>Remove("12")\<close> position 12 is still in \<open>keys\<close>, its entry of \<open>hashMap\<close> is deleted,
  and \<open>Get("11")\<close> returns the empty string on a ring that is not empty.
\<close>

theorem Get_sentinel_on_nonempty_ring:
  "keys (run (New 3 test_hash) [OpAdd [''2''], OpAdd [''12''], OpRemove ''12'']) \<noteq> []
 \<and> Get (run (New 3 test_hash) [OpAdd [''2''], OpAdd [''12''], OpRemove ''12'']) ''11'' = ''''"
  by code_simp

text \<open>
  Claim C5, as amended. On every ring built from a new one by \<open>Add\<close> and \<open>Remove\<close>:
  removing a node changes the answer of \<open>Get\<close> for a key only if the position that key
  was mapped to is one of the positions of that node; and if none of the positions of a
  node is on the ring yet, adding the node and removing it again restores the answer of
  \<open>Get\<close> for every key.
\<close>

theorem Remove_moves_only_own_keys:
  assumes "m = run (New r fn) ops"
  shows "(Get (Remove m n) k \<noteq> Get m k \<longrightarrow>
            keys m \<noteq> [] \<and> keys m ! locate m k \<in> set (positions m n))
       \<and> (set (positions m n) \<inter> set (keys m) = {} \<longrightarrow>
            Get (Remove (Add m [n]) n) k = Get m k)"
proof -
  have so: "sorted (keys m)" unfolding assms by (rule sorted_run)
  have "Get (Remove m n) k = Get m k" if "keys m = []"
    using that Remove_empty [OF that, of n] by (simp add: Get_def)
  moreover have "Get (Remove m n) k = Get m k"
    if "keys m \<noteq> []" "keys m ! locate m k \<notin> set (positions m n)"
    using so that by (rule Get_Remove_other)
  ultimately have "Get (Remove m n) k \<noteq> Get m k \<longrightarrow>
            keys m \<noteq> [] \<and> keys m ! locate m k \<in> set (positions m n)"
    by blast
  moreover have "set (positions m n) \<inter> set (keys m) = {} \<longrightarrow>
            Get (Remove (Add m [n]) n) k = Get m k"
    using so by (auto intro: Get_Remove_Add)
  ultimately show ?thesis by blast
qed

text \<open>
  Both hypotheses are met on the ring of the test: key \<open>"27"\<close> sits on position 28 of
  node \<open>"8"\<close> and moves when that node is removed, and the positions 8, 18, 28 are new
  to the ring of the nodes 6, 4, 2.
\<close>

theorem Remove_moves_only_own_keys_witness:
  "Get (Remove (run (New 3 test_hash) [OpAdd [''6'', ''4'', ''2''], OpAdd [''8'']]) ''8'') ''27''
     \<noteq> Get (run (New 3 test_hash) [OpAdd [''6'', ''4'', ''2''], OpAdd [''8'']]) ''27''
 \<and> keys (run (New 3 test_hash) [OpAdd [''6'', ''4'', ''2''], OpAdd [''8'']])
      ! locate (run (New 3 test_hash) [OpAdd [''6'', ''4'', ''2''], OpAdd [''8'']]) ''27''
     \<in> set (positions (run (New 3 test_hash) [OpAdd [''6'', ''4'', ''2''], OpAdd [''8'']]) ''8'')
 \<and> set (positions (run (New 3 test_hash) [OpAdd [''6'', ''4'', ''2'']]) ''8'')
      \<inter> set (keys (run (New 3 test_hash) [OpAdd [''6'', ''4'', ''2'']])) = {}
 \<and> Get (Remove (Add (run (New 3 test_hash) [OpAdd [''6'', ''4'', ''2'']]) [''8'']) ''8'') ''27''
     = Get (run (New 3 test_hash) [OpAdd [''6'', ''4'', ''2'']]) ''27''"
proof -
  have h1: "Get (Remove (run (New 3 test_hash) [OpAdd [''6'', ''4'', ''2''], OpAdd [''8'']]) ''8'') ''27''
     \<noteq> Get (run (New 3 test_hash) [OpAdd [''6'', ''4'', ''2''], OpAdd [''8'']]) ''27''"
    by code_simp
  have h2: "set (positions (run (New 3 test_hash) [OpAdd [''6'', ''4'', ''2'']]) ''8'')
      \<inter> set (keys (run (New 3 test_hash) [OpAdd [''6'', ''4'', ''2'']])) = {}"
    by code_simp
  from Remove_moves_only_own_keys [OF refl, of 3 test_hash "[OpAdd [''6'', ''4'', ''2''], OpAdd [''8'']]" "''8''" "''27''"]
       Remove_moves_only_own_keys [OF refl, of 3 test_hash "[OpAdd [''6'', ''4'', ''2'']]" "''8''" "''27''"]
       h1 h2
  show ?thesis by blast
qed

text \<open>
  Claim C5 as stated fails in its last sentence. On the ring of node \<open>"2"\<close> key \<open>"11"\<close>
  maps to \<open>"2"\<close> through position 12. \<open>Add("12")\<close> overwrites the owner of position 12,
  \<open>Remove("12")\<close> deletes it, and the key maps to the empty string afterwards.
\<close>

theorem Add_Remove_not_restored:
  "Get (Remove (Add (run (New 3 test_hash) [OpAdd [''2'']]) [''12'']) ''12'') ''11'' = ''''
 \<and> Get (run (New 3 test_hash) [OpAdd [''2'']]) ''11'' = ''2''"
  by code_simp

text \<open>
  Claim C6. On an empty ring \<open>Get\<close> returns the empty string. Every ring built from a
  new one is sorted, and on a sorted non-empty ring \<open>Get\<close> returns the owner of the
  smallest position at or above the hash of the key, or of the first position when there
  is none; the index is found by the binary search \<^const>\<open>Search\<close>. On the ring of the
  test (nodes 6, 4, 2, three replicas, parse-as-integer hash) key \<open>"23"\<close> maps to \<open>"4"\<close>,
  and after \<open>Add("8")\<close> and \<open>Remove("8")\<close> every key maps as before.
\<close>

theorem Get_ring_walk:
  "(keys m = [] \<longrightarrow> Get m key = '''')
 \<and> sorted (keys (run (New r fn) ops))
 \<and> (sorted (keys m) \<and> keys m \<noteq> [] \<longrightarrow>
      Get m key = (case hashMap m (spec_position (keys m) (uint (hash m key))) of
                     None \<Rightarrow> '''' | Some node \<Rightarrow> node))
 \<and> Get test_ring ''23'' = ''4''
 \<and> (\<forall>k. Get (Remove (Add test_ring [''8'']) ''8'') k = Get test_ring k)"
proof -
  have a: "keys m = [] \<longrightarrow> Get m key = ''''" by (simp add: Get_def)
  have b: "sorted (keys (run (New r fn) ops))" by (rule sorted_run)
  have c: "sorted (keys m) \<and> keys m \<noteq> [] \<longrightarrow>
      Get m key = (case hashMap m (spec_position (keys m) (uint (hash m key))) of
                     None \<Rightarrow> '''' | Some node \<Rightarrow> node)"
    using Get_sorted [of m key] by blast
  have d: "Get test_ring ''23'' = ''4''" by code_simp
  have so: "sorted (keys test_ring)" unfolding test_ring_def by (rule sorted_Add)
  have fresh: "set (positions test_ring ''8'') \<inter> set (keys test_ring) = {}" by code_simp
  have e: "\<forall>k. Get (Remove (Add test_ring [''8'']) ''8'') k = Get test_ring k"
    using Get_Remove_Add [OF so fresh] by blast
  from a b c d e show ?thesis by blast
qed

text \<open>The empty ring and the ring of the test meet the hypotheses.\<close>

theorem Get_ring_walk_witness:
  "keys (New 3 test_hash) = [] \<and> Get (New 3 test_hash) ''23'' = ''''
 \<and> sorted (keys test_ring) \<and> keys test_ring \<noteq> []
 \<and> Get test_ring ''23'' =
     (case hashMap test_ring (spec_position (keys test_ring) (uint (hash test_ring ''23''))) of
        None \<Rightarrow> '''' | Some node \<Rightarrow> node)"
proof -
  have h1: "keys (New 3 test_hash) = []" by (simp add: New_def)
  have h2: "sorted (keys test_ring)" by code_simp
  have h3: "keys test_ring \<noteq> []" by code_simp
  from Get_ring_walk [of "New 3 test_hash" "''23''" 3 test_hash "[]"]
       Get_ring_walk [of test_ring "''23''" 3 test_hash "[]"] h1 h2 h3
  show ?thesis by blast
qed

end
